theory Spec2Isabelle
  imports Main
begin

section \<open>Text of the completion: code points and whitespace\<close>

text \<open>
  A Python \<open>str\<close> is a sequence of Unicode code points; a code point is modelled by its
  number, a string by the list of them. \<open>py\<close> turns an ASCII literal into such a list.
\<close>

type_synonym pystr = "nat list"

definition py :: "string \<Rightarrow> pystr" where
  "py cs = map of_char cs"

text \<open>
  \<open>str.isspace\<close> on one code point, which is also what \<open>\s\<close> matches in a \<open>str\<close> pattern
  and what \<open>str.strip()\<close> removes: the characters CPython lists as whitespace.
\<close>

definition is_space :: "nat \<Rightarrow> bool" where
  "is_space c \<longleftrightarrow>
     (9 \<le> c \<and> c \<le> 13) \<or> (28 \<le> c \<and> c \<le> 32) \<or> c = 133 \<or> c = 160 \<or> c = 5760 \<or>
     (8192 \<le> c \<and> c \<le> 8202) \<or> c = 8232 \<or> c = 8233 \<or> c = 8239 \<or> c = 8287 \<or> c = 12288"

definition strip :: "pystr \<Rightarrow> pystr" where
  "strip s = rev (dropWhile is_space (rev (dropWhile is_space s)))"

definition slice :: "pystr \<Rightarrow> nat \<Rightarrow> nat \<Rightarrow> pystr" where
  "slice s i j = take (j - i) (drop i s)"

fun join :: "pystr \<Rightarrow> pystr list \<Rightarrow> pystr" where
  "join sep [] = []"
| "join sep [x] = x"
| "join sep (x # y # ys) = x @ sep @ join sep (y # ys)"

section \<open>The regular expressions of the parser\<close>

text \<open>
  The constructs the three patterns of \<open>get_ai_decomposition\<close> use. \<open>Cls\<close> is one character
  of a class, \<open>Bos\<close> is \<open>^\<close> without \<open>re.MULTILINE\<close>, \<open>Bol\<close> and \<open>Eol\<close> are \<open>^\<close> and \<open>$\<close> with it,
  \<open>Star\<close> is the greedy \<open>*\<close>. None of the groups captures.
\<close>

datatype regex =
    Cls "nat \<Rightarrow> bool"
  | Bos
  | Bol
  | Eol
  | Seq regex regex
  | Alt regex regex
  | Star regex

definition Plus :: "regex \<Rightarrow> regex" where
  "Plus r = Seq r (Star r)"

text \<open>
  \<open>ends r s p\<close> lists the positions at which a match of \<open>r\<close> that starts at position \<open>p\<close> of
  \<open>s\<close> can end, in the order in which the backtracking matcher of \<open>re\<close> tries them: the
  first alternative before the second, one more iteration of a greedy loop before leaving
  it. An iteration that consumes nothing ends its loop.
\<close>

function ends :: "regex \<Rightarrow> pystr \<Rightarrow> nat \<Rightarrow> nat list" where
  "ends (Cls P) s p = (if p < length s \<and> P (s ! p) then [Suc p] else [])"
| "ends Bos s p = (if p = 0 then [p] else [])"
| "ends Bol s p = (if p = 0 \<or> s ! (p - 1) = 10 then [p] else [])"
| "ends Eol s p = (if p = length s \<or> s ! p = 10 then [p] else [])"
| "ends (Seq a b) s p = concat (map (ends b s) (ends a s p))"
| "ends (Alt a b) s p = ends a s p @ ends b s p"
| "ends (Star a) s p =
     concat (map (\<lambda>e. if p < e \<and> e \<le> length s then ends (Star a) s e else []) (ends a s p))
     @ [p]"
  by pat_completeness auto
termination
  by (relation "measures [\<lambda>(r, s, p). size r, \<lambda>(r, s, p). length s - p]") auto

declare ends.simps(7) [simp del]

text \<open>The first match of \<open>r\<close> that starts at one of the positions \<open>ps\<close>, tried in order.\<close>

fun first_match :: "regex \<Rightarrow> pystr \<Rightarrow> nat list \<Rightarrow> (nat \<times> nat) option" where
  "first_match r s [] = None"
| "first_match r s (p # ps) =
     (case ends r s p of [] \<Rightarrow> first_match r s ps | e # _ \<Rightarrow> Some (p, e))"

definition re_search :: "regex \<Rightarrow> pystr \<Rightarrow> (nat \<times> nat) option" where
  "re_search r s = first_match r s [0..<Suc (length s)]"

definition re_match :: "regex \<Rightarrow> pystr \<Rightarrow> (nat \<times> nat) option" where
  "re_match r s = first_match r s [0]"

text \<open>
  \<open>re.split\<close> for a pattern without groups: the pieces of \<open>s\<close> between successive matches,
  each search starting where the last match ended. An empty match stops the splitting
  here; the separator of the parser never matches the empty string.
\<close>

function re_split_from :: "regex \<Rightarrow> pystr \<Rightarrow> nat \<Rightarrow> pystr list" where
  "re_split_from r s pos =
     (case first_match r s [pos..<Suc (length s)] of
        None \<Rightarrow> [drop pos s]
      | Some (i, j) \<Rightarrow>
          if pos < j \<and> j \<le> length s then slice s pos i # re_split_from r s j
          else [drop pos s])"
  by pat_completeness auto
termination
  by (relation "measure (\<lambda>(r, s, pos). length s - pos)") auto

declare re_split_from.simps [simp del]

definition re_split :: "regex \<Rightarrow> pystr \<Rightarrow> pystr list" where
  "re_split r s = re_split_from r s 0"

subsection \<open>The patterns\<close>

definition newline :: "nat \<Rightarrow> bool" where
  "newline c \<longleftrightarrow> c = 10"

definition not_newline :: "nat \<Rightarrow> bool" where
  "not_newline c \<longleftrightarrow> c \<noteq> 10"

definition digit19 :: "nat \<Rightarrow> bool" where
  "digit19 c \<longleftrightarrow> 49 \<le> c \<and> c \<le> 57"

definition dot_or_paren :: "nat \<Rightarrow> bool" where
  "dot_or_paren c \<longleftrightarrow> c = 46 \<or> c = 41"

definition bullet :: "nat \<Rightarrow> bool" where
  "bullet c \<longleftrightarrow> c = 42 \<or> c = 45 \<or> c = 43"

text \<open>\<^verbatim>\<open>(?:[1-9][.)]|[*\-+])\<close>\<close>

definition marker :: regex where
  "marker = Alt (Seq (Cls digit19) (Cls dot_or_paren)) (Cls bullet)"

text \<open>\<^verbatim>\<open>(?:\s*(?:[1-9][.)]|[*\-+])\s+.*(?:\n|$))\<close>, the group that \<open>step_pattern\<close> repeats.\<close>

definition step_item :: regex where
  "step_item =
     Seq (Star (Cls is_space))
       (Seq marker
         (Seq (Plus (Cls is_space))
           (Seq (Star (Cls not_newline)) (Alt (Cls newline) Eol))))"

text \<open>\<^verbatim>\<open>^(?:\s*(?:[1-9][.)]|[*\-+])\s+.*(?:\n|$))+\<close> under \<open>re.MULTILINE\<close>.\<close>

definition step_pattern :: regex where
  "step_pattern = Seq Bol (Plus step_item)"

text \<open>\<^verbatim>\<open>\n\s*\n\<close>, the paragraph separator.\<close>

definition para_sep :: regex where
  "para_sep = Seq (Cls newline) (Seq (Star (Cls is_space)) (Cls newline))"

text \<open>\<^verbatim>\<open>^\s*(?:[1-9][.)]|[*\-+])\s+\<close>, tried on the last paragraph with \<open>re.match\<close>.\<close>

definition item_prefix :: regex where
  "item_prefix = Seq Bos (Seq (Star (Cls is_space)) (Seq marker (Plus (Cls is_space))))"

section \<open>The response parser of \<open>get_ai_decomposition\<close>\<close>

record decomposition =
  steps :: pystr
  encouragement :: pystr

text \<open>
  \<open>paragraphs = re.split(r'\n\s*\n', message_content)\<close> followed by
  \<open>[p.strip() for p in paragraphs if p.strip()]\<close>.
\<close>

definition paragraphs_of :: "pystr \<Rightarrow> pystr list" where
  "paragraphs_of message_content =
     map strip (filter (\<lambda>p. strip p \<noteq> []) (re_split para_sep message_content))"

text \<open>
  The parsing logic, from the two defaults to the returned dictionary. \<open>message_content\<close>
  is the text the parser works on.
\<close>

definition parse_response :: "pystr \<Rightarrow> decomposition" where
  "parse_response message_content =
     (let d = \<lparr>steps = py ''Could not identify clear steps in the response.'',
                encouragement = py ''Remember, just starting is a win!''\<rparr>;
          step_match = re_search step_pattern message_content;
          paragraphs = paragraphs_of message_content
      in if step_match \<noteq> None \<and> length paragraphs > 1 then
           (let d = d\<lparr>steps := strip (case the step_match of (i, j) \<Rightarrow> slice message_content i j)\<rparr>;
                potential_encouragement = last paragraphs
            in if re_match item_prefix potential_encouragement = None
               then d\<lparr>encouragement := potential_encouragement\<rparr>
               else d\<lparr>encouragement := py ''Focus on that first step, you can do it!''\<rparr>)
         else if length paragraphs > 1 then
           d\<lparr>steps := join [10, 10] (butlast paragraphs), encouragement := last paragraphs\<rparr>
         else if length paragraphs = 1 then
           (if step_match \<noteq> None
            then d\<lparr>steps := message_content,
                   encouragement := py ''Just taking the first step is progress!''\<rparr>
            else d\<lparr>steps := py ''No specific steps identified.'',
                   encouragement := message_content\<rparr>)
         else
           d\<lparr>steps := message_content,
             encouragement := py ''Remember to take it one step at a time.''\<rparr>)"

text \<open>
  \<open>get_ai_decomposition\<close> around the parser. \<open>api_key\<close> is \<open>OPENAI_API_KEY\<close> (\<open>None\<close> when
  the variable is not set) and \<open>openai_config_missing\<close> the flag computed from it at
  import; \<open>content\<close> is \<open>response.choices[0].message.content\<close>, \<open>None\<close> when the call to
  the completion API raised. The parser receives \<open>content.strip()\<close>.
\<close>

definition get_ai_decomposition ::
    "bool \<Rightarrow> string option \<Rightarrow> pystr option \<Rightarrow> decomposition option" where
  "get_ai_decomposition openai_config_missing api_key content =
     (if openai_config_missing then None
      else if api_key = None \<or> api_key = Some [] then None
      else case content of
             None \<Rightarrow> None
           | Some c \<Rightarrow> Some (parse_response (strip c)))"

section \<open>The credential store (auth.py)\<close>

text \<open>
  Python values that travel through the store: \<open>None\<close>, integers, \<open>str\<close> and \<open>bytes\<close>.
\<close>

datatype pyval = PyNone | PyInt int | PyStr string | PyBytes string

text \<open>
  A row of table \<open>users\<close>, with the columns in the order of the \<open>CREATE TABLE\<close> statement of
  \<open>init_db\<close>: id, username, email, password_hash, openai_api_key, created_at, last_login.
  The two columns without \<open>NOT NULL\<close> or a default may hold \<open>NULL\<close>.
\<close>

record user_row =
  c_id :: int
  c_username :: string
  c_email :: string
  c_password_hash :: string
  c_openai_api_key :: "string option"
  c_created_at :: string
  c_last_login :: "string option"

definition nullable :: "string option \<Rightarrow> pyval" where
  "nullable v = (case v of None \<Rightarrow> PyNone | Some t \<Rightarrow> PyStr t)"

text \<open>The tuple that \<open>SELECT *\<close> returns for a row: every column, in table order.\<close>

definition select_star :: "user_row \<Rightarrow> pyval list" where
  "select_star r =
     [PyInt (c_id r), PyStr (c_username r), PyStr (c_email r), PyBytes (c_password_hash r),
      nullable (c_openai_api_key r), PyStr (c_created_at r), nullable (c_last_login r)]"

text \<open>The tuple that \<open>SELECT openai_api_key\<close> returns for a row.\<close>

definition select_openai_api_key :: "user_row \<Rightarrow> pyval list" where
  "select_openai_api_key r = [nullable (c_openai_api_key r)]"

text \<open>
  The file \<open>users.db\<close>: the committed rows, the counter behind \<open>AUTOINCREMENT\<close>, and the
  number of connections that were opened and not closed. \<open>init_db\<close> has created the table
  when the module was imported.
\<close>

record database =
  users :: "user_row list"
  id_sequence :: int
  open_connections :: nat

text \<open>
  A connection holds the rows as its transaction sees them; \<open>commit\<close> writes them to the file.
\<close>

record connection =
  work :: "user_row list"
  work_sequence :: int

datatype exn = OperationalError | IntegrityError | ValueError

text \<open>
  What a call does not control: which of its storage calls raise (\<open>fails env n\<close> for the
  \<open>n\<close>-th of \<open>connect\<close>, \<open>execute\<close>, \<open>commit\<close>, counted from 0), the two functions of
  \<open>bcrypt\<close> (\<open>None\<close> when they raise), the salt that \<open>bcrypt.gensalt()\<close> draws, the value of
  \<open>datetime.now()\<close>, and SQLite's \<open>CURRENT_TIMESTAMP\<close>.
\<close>

record env =
  fails :: "nat \<Rightarrow> bool"
  hashpw :: "string \<Rightarrow> string \<Rightarrow> string option"
  checkpw :: "string \<Rightarrow> pyval \<Rightarrow> bool option"
  gensalt :: string
  datetime_now :: string
  current_timestamp :: string

text \<open>
  A block of statements either returns a value or raises, and changes the database either
  way; \<open>try_except\<close> is \<open>try: ... except Exception as e: ...\<close> with a handler that returns.
\<close>

type_synonym 'a io = "database \<Rightarrow> (exn + 'a) \<times> database"

definition io_return :: "'a \<Rightarrow> 'a io" where
  "io_return x = (\<lambda>d. (Inr x, d))"

definition io_raise :: "exn \<Rightarrow> 'a io" where
  "io_raise e = (\<lambda>d. (Inl e, d))"

definition io_bind :: "'a io \<Rightarrow> ('a \<Rightarrow> 'b io) \<Rightarrow> 'b io" where
  "io_bind m f = (\<lambda>d. case m d of (Inl e, d') \<Rightarrow> (Inl e, d') | (Inr x, d') \<Rightarrow> f x d')"

definition try_except :: "'a io \<Rightarrow> (exn \<Rightarrow> 'a) \<Rightarrow> database \<Rightarrow> 'a \<times> database" where
  "try_except body handler d =
     (case body d of (Inr x, d') \<Rightarrow> (x, d') | (Inl e, d') \<Rightarrow> (handler e, d'))"

subsection \<open>Storage calls\<close>

text \<open>\<open>sqlite3.connect('users.db')\<close> with \<open>conn.cursor()\<close>.\<close>

definition connect :: "bool \<Rightarrow> connection io" where
  "connect fault =
     (\<lambda>d. if fault then (Inl OperationalError, d)
          else (Inr \<lparr>work = users d, work_sequence = id_sequence d\<rparr>,
                d\<lparr>open_connections := Suc (open_connections d)\<rparr>))"

text \<open>\<open>c.execute('SELECT ... FROM users WHERE ...')\<close>: the selected columns of the rows that match.\<close>

definition select_where ::
    "bool \<Rightarrow> (user_row \<Rightarrow> pyval list) \<Rightarrow> (user_row \<Rightarrow> bool) \<Rightarrow> connection \<Rightarrow> pyval list list io" where
  "select_where fault columns cond conn =
     (if fault then io_raise OperationalError
      else io_return (map columns (filter cond (work conn))))"

text \<open>\<open>c.fetchone()\<close>: the first row of the result, or \<open>None\<close>.\<close>

definition fetchone :: "pyval list list \<Rightarrow> pyval list option" where
  "fetchone rows = (case rows of [] \<Rightarrow> None | r # _ \<Rightarrow> Some r)"

text \<open>
  \<open>INSERT INTO users (username, email, password_hash) VALUES (?, ?, ?)\<close>: the id comes from
  \<open>AUTOINCREMENT\<close>, \<open>created_at\<close> from its default, the other columns are \<open>NULL\<close>; the two
  \<open>UNIQUE\<close> constraints are checked.
\<close>

definition insert_user :: "bool \<Rightarrow> string \<Rightarrow> string \<Rightarrow> string \<Rightarrow> string \<Rightarrow> connection \<Rightarrow> connection io" where
  "insert_user fault username email password_hash ts conn =
     (if fault then io_raise OperationalError
      else if list_ex (\<lambda>r. c_username r = username \<or> c_email r = email) (work conn)
      then io_raise IntegrityError
      else (let new_id = fold max (map c_id (work conn)) (work_sequence conn) + 1
            in io_return
                 (conn\<lparr>work := work conn @
                          [\<lparr>c_id = new_id, c_username = username, c_email = email,
                            c_password_hash = password_hash, c_openai_api_key = None,
                            c_created_at = ts, c_last_login = None\<rparr>],
                        work_sequence := new_id\<rparr>)))"

text \<open>\<open>UPDATE users SET ... WHERE ...\<close>.\<close>

definition update_where ::
    "bool \<Rightarrow> (user_row \<Rightarrow> user_row) \<Rightarrow> (user_row \<Rightarrow> bool) \<Rightarrow> connection \<Rightarrow> connection io" where
  "update_where fault assign cond conn =
     (if fault then io_raise OperationalError
      else io_return (conn\<lparr>work := map (\<lambda>r. if cond r then assign r else r) (work conn)\<rparr>))"

definition commit :: "bool \<Rightarrow> connection \<Rightarrow> unit io" where
  "commit fault conn =
     (\<lambda>d. if fault then (Inl OperationalError, d)
          else (Inr (), d\<lparr>users := work conn, id_sequence := work_sequence conn\<rparr>))"

definition close :: "connection \<Rightarrow> unit io" where
  "close conn = (\<lambda>d. (Inr (), d\<lparr>open_connections := open_connections d - 1\<rparr>))"

subsection \<open>Passwords\<close>

text \<open>
  A \<open>str\<close> of the store is held as its UTF-8 bytes, so \<open>password.encode('utf-8')\<close> is the
  string itself.
\<close>

definition hash_password :: "env \<Rightarrow> string \<Rightarrow> string io" where
  "hash_password env password =
     (case hashpw env password (gensalt env) of
        None \<Rightarrow> io_raise ValueError
      | Some h \<Rightarrow> io_return h)"

definition verify_password :: "env \<Rightarrow> string \<Rightarrow> pyval \<Rightarrow> bool io" where
  "verify_password env password password_hash =
     (case checkpw env password password_hash of
        None \<Rightarrow> io_raise ValueError
      | Some ok \<Rightarrow> io_return ok)"

subsection \<open>The five operations\<close>

definition register_user ::
    "env \<Rightarrow> string \<Rightarrow> string \<Rightarrow> string \<Rightarrow> database \<Rightarrow> (bool \<times> string) \<times> database" where
  "register_user env username email password =
     try_except
       (io_bind (connect (fails env 0)) (\<lambda>conn.
        io_bind (select_where (fails env 1) select_star
                   (\<lambda>r. c_username r = username \<or> c_email r = email) conn) (\<lambda>rows.
        if fetchone rows \<noteq> None
        then io_bind (close conn) (\<lambda>_.
             io_return (False, ''Username or email already exists''))
        else io_bind (hash_password env password) (\<lambda>password_hash.
             io_bind (insert_user (fails env 2) username email password_hash
                        (current_timestamp env) conn) (\<lambda>conn.
             io_bind (commit (fails env 3) conn) (\<lambda>_.
             io_bind (close conn) (\<lambda>_.
             io_return (True, ''Registration successful''))))))))
       (\<lambda>e. (False, ''Registration failed''))"

text \<open>What \<open>login_user\<close> returns beside the flag: a message, or the dictionary of the user.\<close>

datatype payload = Message string | UserInfo "(string \<times> pyval) list"

definition login_user ::
    "env \<Rightarrow> string \<Rightarrow> string \<Rightarrow> database \<Rightarrow> (bool \<times> payload) \<times> database" where
  "login_user env username password =
     try_except
       (io_bind (connect (fails env 0)) (\<lambda>conn.
        io_bind (select_where (fails env 1) select_star
                   (\<lambda>r. c_username r = username) conn) (\<lambda>rows.
        let user = fetchone rows in
        io_bind (if user \<noteq> None then verify_password env password (the user ! 3)
                 else io_return False) (\<lambda>verified.
        if verified
        then io_bind (update_where (fails env 2)
                        (\<lambda>r. r\<lparr>c_last_login := Some (datetime_now env)\<rparr>)
                        (\<lambda>r. c_username r = username) conn) (\<lambda>conn.
             io_bind (commit (fails env 3) conn) (\<lambda>_.
             io_bind (close conn) (\<lambda>_.
             io_return
               (True, UserInfo [(''id'', the user ! 0), (''username'', the user ! 1),
                                (''email'', the user ! 2), (''created_at'', the user ! 4),
                                (''last_login'', the user ! 5)]))))
        else io_bind (close conn) (\<lambda>_.
             io_return (False, Message ''Invalid username or password''))))))
       (\<lambda>e. (False, Message ''Login failed''))"

definition get_user_by_id ::
    "env \<Rightarrow> int \<Rightarrow> database \<Rightarrow> (string \<times> pyval) list option \<times> database" where
  "get_user_by_id env user_id =
     try_except
       (io_bind (connect (fails env 0)) (\<lambda>conn.
        io_bind (select_where (fails env 1) select_star (\<lambda>r. c_id r = user_id) conn) (\<lambda>rows.
        let user = fetchone rows in
        io_bind (close conn) (\<lambda>_.
        io_return
          (case user of
             Some u \<Rightarrow> Some [(''id'', u ! 0), (''username'', u ! 1), (''email'', u ! 2),
                             (''created_at'', u ! 4), (''last_login'', u ! 5)]
           | None \<Rightarrow> None)))))
       (\<lambda>e. None)"

definition update_openai_api_key ::
    "env \<Rightarrow> string \<Rightarrow> string \<Rightarrow> database \<Rightarrow> (bool \<times> string) \<times> database" where
  "update_openai_api_key env username api_key =
     try_except
       (io_bind (connect (fails env 0)) (\<lambda>conn.
        io_bind (update_where (fails env 1) (\<lambda>r. r\<lparr>c_openai_api_key := Some api_key\<rparr>)
                   (\<lambda>r. c_username r = username) conn) (\<lambda>conn.
        io_bind (commit (fails env 2) conn) (\<lambda>_.
        io_bind (close conn) (\<lambda>_.
        io_return (True, ''API key updated successfully''))))))
       (\<lambda>e. (False, ''Failed to update API key''))"

definition get_openai_api_key :: "env \<Rightarrow> string \<Rightarrow> database \<Rightarrow> pyval \<times> database" where
  "get_openai_api_key env username =
     try_except
       (io_bind (connect (fails env 0)) (\<lambda>conn.
        io_bind (select_where (fails env 1) select_openai_api_key
                   (\<lambda>r. c_username r = username) conn) (\<lambda>rows.
        let result = fetchone rows in
        io_bind (close conn) (\<lambda>_.
        io_return (case result of Some t \<Rightarrow> t ! 0 | None \<Rightarrow> PyNone)))))
       (\<lambda>e. PyNone)"

section \<open>Deterministic readings of the patterns\<close>

text \<open>
  The functions below walk the text once, without backtracking. The lemmas of the next
  sections show that they return what the first match of the corresponding pattern
  returns; the properties of the parser are then proved on them.
\<close>

function scan :: "(nat \<Rightarrow> bool) \<Rightarrow> pystr \<Rightarrow> nat \<Rightarrow> nat" where
  "scan P s p = (if p < length s \<and> P (s ! p) then scan P s (Suc p) else p)"
  by pat_completeness auto
termination
  by (relation "measure (\<lambda>(P, s, p). length s - p)") auto

declare scan.simps [simp del]

definition marker_end :: "pystr \<Rightarrow> nat \<Rightarrow> nat option" where
  "marker_end s q =
     (if q < length s \<and> digit19 (s ! q) \<and> Suc q < length s \<and> dot_or_paren (s ! Suc q)
      then Some (q + 2)
      else if q < length s \<and> bullet (s ! q) then Some (Suc q) else None)"

definition line_end :: "pystr \<Rightarrow> nat \<Rightarrow> nat" where
  "line_end s t = (let u = scan not_newline s t in if u < length s then Suc u else u)"

definition item_end :: "pystr \<Rightarrow> nat \<Rightarrow> nat option" where
  "item_end s p =
     (case marker_end s (scan is_space s p) of
        None \<Rightarrow> None
      | Some q \<Rightarrow>
          if q < length s \<and> is_space (s ! q)
          then Some (line_end s (scan is_space s q)) else None)"

definition first_end :: "regex \<Rightarrow> pystr \<Rightarrow> nat \<Rightarrow> nat option" where
  "first_end r s p = (case ends r s p of [] \<Rightarrow> None | e # _ \<Rightarrow> Some e)"

function block_end :: "pystr \<Rightarrow> nat \<Rightarrow> nat" where
  "block_end s p =
     (case item_end s p of
        None \<Rightarrow> p
      | Some e \<Rightarrow> if p < e \<and> e \<le> length s then block_end s e else p)"
  by pat_completeness auto
termination
  by (relation "measure (\<lambda>(s, p). length s - p)") auto

declare block_end.simps [simp del]

definition block_at :: "pystr \<Rightarrow> nat \<Rightarrow> nat option" where
  "block_at s p =
     (if p = 0 \<or> s ! (p - 1) = 10
      then (case item_end s p of None \<Rightarrow> None | Some e \<Rightarrow> Some (block_end s e))
      else None)"

function find_from :: "(nat \<Rightarrow> nat option) \<Rightarrow> nat \<Rightarrow> nat \<Rightarrow> (nat \<times> nat) option" where
  "find_from f p n =
     (if p < n
      then (case f p of None \<Rightarrow> find_from f (Suc p) n | Some e \<Rightarrow> Some (p, e))
      else None)"
  by pat_completeness auto
termination
  by (relation "measure (\<lambda>(f, p, n). n - p)") auto

declare find_from.simps [simp del]

function last_newline :: "pystr \<Rightarrow> nat \<Rightarrow> nat \<Rightarrow> nat option" where
  "last_newline s lo hi =
     (if hi \<le> lo then None
      else if s ! (hi - 1) = 10 then Some hi
      else last_newline s lo (hi - 1))"
  by pat_completeness auto
termination
  by (relation "measure (\<lambda>(s, lo, hi). hi - lo)") auto

declare last_newline.simps [simp del]

definition sep_end :: "pystr \<Rightarrow> nat \<Rightarrow> nat option" where
  "sep_end s p =
     (if p < length s \<and> s ! p = 10
      then last_newline s (Suc p) (scan is_space s (Suc p)) else None)"

definition prefix_end :: "pystr \<Rightarrow> nat option" where
  "prefix_end s =
     (case marker_end s (scan is_space s 0) of
        None \<Rightarrow> None
      | Some q \<Rightarrow> if q < length s \<and> is_space (s ! q) then Some (scan is_space s q) else None)"

section \<open>Notions used to state the properties\<close>

text \<open>
  A list-item prefix in the words of the specification: a digit 1-9 followed by \<open>.\<close> or \<open>)\<close>,
  or one of \<open>*\<close>, \<open>-\<close>, \<open>+\<close>, and then a whitespace character.
\<close>

definition begins_with_list_item_prefix :: "pystr \<Rightarrow> bool" where
  "begins_with_list_item_prefix p \<longleftrightarrow>
     (\<exists>d c w r. p = d # c # w # r \<and> digit19 d \<and> dot_or_paren c \<and> is_space w) \<or>
     (\<exists>b w r. p = b # w # r \<and> bullet b \<and> is_space w)"

text \<open>
  The text of one list item: leading whitespace, a marker, a non-empty run of whitespace that
  stops only at a character that is not whitespace or at the end of the text, the rest of
  that line without a newline, and the newline that ends the line. Only an item that reaches
  the end of the text (\<open>at_end\<close>) may lack the newline, and only such an item may have nothing
  after its whitespace.
\<close>

definition marker_text :: "pystr \<Rightarrow> bool" where
  "marker_text mk \<longleftrightarrow>
     (\<exists>d c. mk = [d, c] \<and> digit19 d \<and> dot_or_paren c) \<or> (\<exists>b. mk = [b] \<and> bullet b)"

definition item_text :: "bool \<Rightarrow> pystr \<Rightarrow> bool" where
  "item_text at_end w \<longleftrightarrow>
     (\<exists>lead mk gap body eol.
        w = lead @ mk @ gap @ body @ eol \<and> list_all is_space lead \<and> marker_text mk \<and>
        gap \<noteq> [] \<and> list_all is_space gap \<and>
        10 \<notin> set body \<and> (body = [] \<or> \<not> is_space (hd body)) \<and>
        (eol = [10] \<and> body \<noteq> [] \<or> eol = [] \<and> at_end))"

text \<open>A list item begins the text: whitespace, a marker and one whitespace character.\<close>

definition item_begins :: "pystr \<Rightarrow> bool" where
  "item_begins t \<longleftrightarrow>
     (\<exists>lead mk sp rest.
        t = lead @ mk @ sp # rest \<and> list_all is_space lead \<and> marker_text mk \<and> is_space sp)"

text \<open>
  A blank line inside a text: two newlines with nothing but whitespace between them.
\<close>

definition has_blank_line :: "pystr \<Rightarrow> bool" where
  "has_blank_line t \<longleftrightarrow> (\<exists>a b c. t = a @ 10 # b @ 10 # c \<and> list_all is_space b)"

text \<open>
  \<open>weave gaps ps\<close> is the text that has the paragraphs \<open>ps\<close> in their order, with one gap
  before the first, one between neighbours and one after the last.
\<close>

fun weave :: "pystr list \<Rightarrow> pystr list \<Rightarrow> pystr" where
  "weave (g # gs) (p # ps) = g @ p @ weave gs ps"
| "weave (g # gs) [] = g"
| "weave [] ps = []"

text \<open>Replies used as examples; \<open>split_lines\<close> cuts a text at its newlines.\<close>

definition example_reply :: pystr where
  "example_reply =
     py ''1. Open the file'' @ [10] @ py ''2. Read line one'' @ [10, 10] @
     py ''You've got this '' @ [8212] @ py '' just open it!''"

definition blank_gap_reply :: pystr where
  "blank_gap_reply = py ''1. a'' @ [10, 10] @ py ''2. b''"

definition intro_list_reply :: pystr where
  "intro_list_reply = py ''Do:'' @ [10] @ py ''1. a'' @ [10, 10] @ py ''2. b'' @ [10] @ py ''end''"

definition prose_reply :: pystr where
  "prose_reply = py ''ab '' @ [10, 10] @ py '' cd'' @ [10, 32, 10] @ py ''ef''"

fun split_lines :: "pystr \<Rightarrow> pystr list" where
  "split_lines [] = [[]]"
| "split_lines (c # cs) =
     (if c = 10 then [] # split_lines cs
      else (case split_lines cs of [] \<Rightarrow> [[c]] | l # ls \<Rightarrow> (c # l) # ls))"

text \<open>A row with the same username or the same email is stored.\<close>

definition already_stored :: "database \<Rightarrow> string \<Rightarrow> string \<Rightarrow> bool" where
  "already_stored d username email =
     list_ex (\<lambda>r. c_username r = username \<or> c_email r = email) (users d)"

text \<open>
  A setting for the examples: \<open>toy_env faulty\<close> raises in the storage calls \<open>faulty\<close> picks, its
  \<open>hashpw\<close> puts the salt before the password and its \<open>checkpw\<close> compares with that; both
  raise on a password of more than 72 bytes, as \<open>bcrypt\<close> 5 does.
\<close>

definition toy_env :: "(nat \<Rightarrow> bool) \<Rightarrow> env" where
  "toy_env faulty =
     \<lparr>fails = faulty,
      hashpw = (\<lambda>password s. if 72 < length password then None else Some (s @ password)),
      checkpw = (\<lambda>password h. if 72 < length password then None
                               else Some (h = PyBytes (''salt$'' @ password))),
      gensalt = ''salt$'',
      datetime_now = ''2024-05-02 09:30:00'',
      current_timestamp = ''2024-05-01 10:00:00''\<rparr>"

definition empty_db :: database where
  "empty_db = \<lparr>users = [], id_sequence = 0, open_connections = 0\<rparr>"

definition alice :: user_row where
  "alice =
     \<lparr>c_id = 1, c_username = ''alice'', c_email = ''alice@example.org'',
      c_password_hash = ''salt$pw'', c_openai_api_key = Some ''sk-secret'',
      c_created_at = ''2024-05-01 10:00:00'', c_last_login = None\<rparr>"

definition alice_db :: database where
  "alice_db = \<lparr>users = [alice], id_sequence = 1, open_connections = 0\<rparr>"

section \<open>The patterns match what the deterministic readings compute\<close>

lemma scan_here: "\<not> (p < length s \<and> P (s ! p)) \<Longrightarrow> scan P s p = p"
  by (subst scan.simps) auto

lemma scan_step: "p < length s \<Longrightarrow> P (s ! p) \<Longrightarrow> scan P s p = scan P s (Suc p)"
  by (subst scan.simps) auto

lemma scan_ge: "p \<le> scan P s p"
proof (induction P s p rule: scan.induct)
  case (1 P s p)
  show ?case
  proof (cases "p < length s \<and> P (s ! p)")
    case True
    with 1 have "Suc p \<le> scan P s (Suc p)" by simp
    with True show ?thesis by (simp add: scan_step)
  next
    case False
    then show ?thesis by (simp add: scan_here)
  qed
qed

lemma scan_le: "p \<le> length s \<Longrightarrow> scan P s p \<le> length s"
proof (induction P s p rule: scan.induct)
  case (1 P s p)
  show ?case
  proof (cases "p < length s \<and> P (s ! p)")
    case True
    with 1 have "scan P s (Suc p) \<le> length s" by simp
    with True show ?thesis by (simp add: scan_step)
  next
    case False
    with 1 show ?thesis by (simp add: scan_here)
  qed
qed

lemma scan_all: "p \<le> q \<Longrightarrow> q < scan P s p \<Longrightarrow> q < length s \<and> P (s ! q)"
proof (induction P s p rule: scan.induct)
  case (1 P s p)
  show ?case
  proof (cases "p < length s \<and> P (s ! p)")
    case True
    then have eq: "scan P s p = scan P s (Suc p)" by (simp add: scan_step)
    show ?thesis
    proof (cases "q = p")
      case True
      with \<open>p < length s \<and> P (s ! p)\<close> show ?thesis by simp
    next
      case False
      with 1 True eq show ?thesis by simp
    qed
  next
    case False
    then have "scan P s p = p" by (simp add: scan_here)
    with 1 show ?thesis by simp
  qed
qed

lemma scan_stop: "scan P s p < length s \<Longrightarrow> \<not> P (s ! scan P s p)"
proof (induction P s p rule: scan.induct)
  case (1 P s p)
  show ?case
  proof (cases "p < length s \<and> P (s ! p)")
    case True
    then have eq: "scan P s p = scan P s (Suc p)" by (simp add: scan_step)
    with 1 True show ?thesis by simp
  next
    case False
    then have "scan P s p = p" by (simp add: scan_here)
    with 1 False show ?thesis by simp
  qed
qed

lemma ends_star_cls: "ends (Star (Cls P)) s p = rev [p..<Suc (scan P s p)]"
proof (induction P s p rule: scan.induct)
  case (1 P s p)
  show ?case
  proof (cases "p < length s \<and> P (s ! p)")
    case True
    then have eq: "scan P s p = scan P s (Suc p)" by (simp add: scan_step)
    have "ends (Star (Cls P)) s p = ends (Star (Cls P)) s (Suc p) @ [p]"
      using True by (subst ends.simps(7)) simp
    also have "\<dots> = rev [Suc p..<Suc (scan P s (Suc p))] @ [p]"
      using 1 True by simp
    also have "\<dots> = rev [p..<Suc (scan P s p)]"
      using scan_ge [of "Suc p" P s] by (simp add: eq upt_conv_Cons)
    finally show ?thesis .
  next
    case False
    then have "scan P s p = p" by (simp add: scan_here)
    moreover have "ends (Star (Cls P)) s p = [p]"
      using False by (subst ends.simps(7)) auto
    ultimately show ?thesis by simp
  qed
qed

lemma concat_map_rev_upt_last:
  "p \<le> e \<Longrightarrow> (\<And>q. p \<le> q \<Longrightarrow> q < e \<Longrightarrow> f q = []) \<Longrightarrow> concat (map f (rev [p..<Suc e])) = f e"
  by (induction e) (auto simp: le_Suc_eq)

lemma ends_marker: "ends marker s q = (case marker_end s q of None \<Rightarrow> [] | Some e \<Rightarrow> [e])"
  by (auto simp: marker_def marker_end_def digit19_def bullet_def)

lemma marker_end_space: "q < length s \<Longrightarrow> is_space (s ! q) \<Longrightarrow> marker_end s q = None"
  by (auto simp: marker_end_def digit19_def bullet_def is_space_def)

lemma first_end_eq_None: "first_end r s p = None \<longleftrightarrow> ends r s p = []"
  by (simp add: first_end_def split: list.splits)

lemma first_end_eq_Some: "first_end r s p = Some e \<longleftrightarrow> (\<exists>rest. ends r s p = e # rest)"
  by (simp add: first_end_def split: list.splits)

lemma concat_map_rev_upt_head:
  "p \<le> e \<Longrightarrow> f e = x # r \<Longrightarrow> \<exists>rest. concat (map f (rev [p..<Suc e])) = x # rest"
  by simp

lemma line_end_ge: "t \<le> line_end s t"
  using scan_ge [of t not_newline s] by (simp add: line_end_def Let_def)

lemma line_end_le: "t \<le> length s \<Longrightarrow> line_end s t \<le> length s"
  using scan_le [of t s not_newline] by (simp add: line_end_def Let_def)

lemma ends_line_tail:
  assumes "t \<le> length s"
  shows "\<exists>rest. ends (Seq (Star (Cls not_newline)) (Alt (Cls newline) Eol)) s t = line_end s t # rest"
proof -
  let ?u = "scan not_newline s t"
  have tu: "t \<le> ?u" by (rule scan_ge)
  have ul: "?u \<le> length s" using assms by (rule scan_le)
  have "\<exists>r. ends (Alt (Cls newline) Eol) s ?u = line_end s t # r"
  proof (cases "?u < length s")
    case True
    then have "\<not> not_newline (s ! ?u)" by (rule scan_stop)
    then have "s ! ?u = 10" by (simp add: not_newline_def)
    with True show ?thesis by (simp add: line_end_def newline_def)
  next
    case False
    with ul have "?u = length s" by simp
    then show ?thesis by (simp add: line_end_def)
  qed
  then obtain r where "ends (Alt (Cls newline) Eol) s ?u = line_end s t # r" ..
  with tu have "\<exists>rest. concat (map (ends (Alt (Cls newline) Eol) s) (rev [t..<Suc ?u])) = line_end s t # rest"
    by (rule concat_map_rev_upt_head)
  then show ?thesis by (simp add: ends_star_cls)
qed

lemma ends_plus_space:
  "ends (Seq (Plus (Cls is_space)) T) s q =
     (if q < length s \<and> is_space (s ! q)
      then concat (map (ends T s) (rev [Suc q..<Suc (scan is_space s q)])) else [])"
proof (cases "q < length s \<and> is_space (s ! q)")
  case True
  then have "scan is_space s q = scan is_space s (Suc q)" by (simp add: scan_step)
  with True show ?thesis by (simp add: Plus_def ends_star_cls)
next
  case False
  then have "ends (Cls is_space) s q = []" by auto
  then have "ends (Seq (Plus (Cls is_space)) T) s q = []" by (simp add: Plus_def)
  with False show ?thesis by auto
qed

lemma ends_after_marker:
  assumes "q \<le> length s"
  shows "first_end (Seq (Plus (Cls is_space)) (Seq (Star (Cls not_newline)) (Alt (Cls newline) Eol))) s q =
     (if q < length s \<and> is_space (s ! q) then Some (line_end s (scan is_space s q)) else None)"
proof (cases "q < length s \<and> is_space (s ! q)")
  case True
  let ?T = "Seq (Star (Cls not_newline)) (Alt (Cls newline) Eol)"
  let ?v = "scan is_space s q"
  have v: "?v = scan is_space s (Suc q)" using True by (simp add: scan_step)
  have qv: "Suc q \<le> ?v" unfolding v by (rule scan_ge)
  have "?v \<le> length s" using assms by (rule scan_le)
  then obtain r where "ends ?T s ?v = line_end s ?v # r"
    using ends_line_tail by blast
  with qv have "\<exists>rest. concat (map (ends ?T s) (rev [Suc q..<Suc ?v])) = line_end s ?v # rest"
    by (rule concat_map_rev_upt_head)
  then have "\<exists>rest. ends (Seq (Plus (Cls is_space)) ?T) s q = line_end s ?v # rest"
    using True by (simp only: ends_plus_space simp_thms if_True)
  then have "first_end (Seq (Plus (Cls is_space)) ?T) s q = Some (line_end s ?v)"
    by (simp only: first_end_eq_Some)
  with True show ?thesis by simp
next
  case False
  then have "ends (Seq (Plus (Cls is_space)) (Seq (Star (Cls not_newline)) (Alt (Cls newline) Eol))) s q = []"
    by (simp only: ends_plus_space simp_thms if_False)
  then have "first_end (Seq (Plus (Cls is_space)) (Seq (Star (Cls not_newline)) (Alt (Cls newline) Eol))) s q = None"
    by (simp only: first_end_eq_None)
  with False show ?thesis by auto
qed

lemma marker_end_bounds: "marker_end s q = Some e \<Longrightarrow> q < e \<and> e \<le> length s"
  by (auto simp: marker_end_def split: if_splits)

lemma ends_step_item_skip:
  "ends step_item s p =
     ends (Seq marker (Seq (Plus (Cls is_space))
            (Seq (Star (Cls not_newline)) (Alt (Cls newline) Eol)))) s (scan is_space s p)"
proof -
  let ?R = "Seq marker (Seq (Plus (Cls is_space))
            (Seq (Star (Cls not_newline)) (Alt (Cls newline) Eol)))"
  have "concat (map (ends ?R s) (rev [p..<Suc (scan is_space s p)])) = ends ?R s (scan is_space s p)"
  proof (rule concat_map_rev_upt_last)
    show "p \<le> scan is_space s p" by (rule scan_ge)
  next
    fix q assume "p \<le> q" "q < scan is_space s p"
    then have "q < length s \<and> is_space (s ! q)" by (rule scan_all)
    then have "marker_end s q = None" by (simp add: marker_end_space)
    then show "ends ?R s q = []" by (simp add: ends_marker)
  qed
  then show ?thesis by (simp add: step_item_def ends_star_cls)
qed

lemma first_end_step_item: "first_end step_item s p = item_end s p"
proof (cases "marker_end s (scan is_space s p)")
  case None
  then have "ends step_item s p = []" by (simp add: ends_step_item_skip ends_marker)
  with None show ?thesis by (simp add: first_end_def item_end_def)
next
  case (Some q)
  let ?A = "Seq (Plus (Cls is_space)) (Seq (Star (Cls not_newline)) (Alt (Cls newline) Eol))"
  from Some have q: "q \<le> length s" by (simp add: marker_end_bounds)
  have "ends step_item s p = ends ?A s q"
    using Some by (simp add: ends_step_item_skip ends_marker)
  then have "first_end step_item s p = first_end ?A s q" by (simp add: first_end_def)
  also have "\<dots> = item_end s p"
    using Some by (simp only: ends_after_marker [OF q] item_end_def option.case)
  finally show ?thesis .
qed

lemma item_end_bounds: "item_end s p = Some e \<Longrightarrow> p < e \<and> e \<le> length s"
proof -
  assume a: "item_end s p = Some e"
  then obtain q where m: "marker_end s (scan is_space s p) = Some q"
    and q: "q < length s" and e: "e = line_end s (scan is_space s q)"
    by (auto simp: item_end_def split: option.splits if_splits)
  from m have "scan is_space s p < q" by (simp add: marker_end_bounds)
  with scan_ge [of p is_space s] have "p < q" by simp
  also have "q \<le> scan is_space s q" by (rule scan_ge)
  also have "\<dots> \<le> e" unfolding e by (rule line_end_ge)
  finally have "p < e" .
  moreover have "e \<le> length s"
    unfolding e using q by (intro line_end_le scan_le) simp
  ultimately show ?thesis ..
qed

lemma ends_star_nonempty: "ends (Star a) s p \<noteq> []"
  by (subst ends.simps(7)) simp

lemma block_end_None: "item_end s p = None \<Longrightarrow> block_end s p = p"
  by (subst block_end.simps) simp

lemma block_end_Some: "item_end s p = Some e \<Longrightarrow> block_end s p = block_end s e"
  by (subst block_end.simps) (simp add: item_end_bounds)

lemma first_end_star_item: "first_end (Star step_item) s p = Some (block_end s p)"
proof (induction s p rule: block_end.induct)
  case (1 s p)
  show ?case
  proof (cases "item_end s p")
    case None
    then have "ends step_item s p = []"
      by (simp add: first_end_step_item [symmetric] first_end_eq_None)
    then have "ends (Star step_item) s p = [p]" by (subst ends.simps(7)) simp
    with None show ?thesis by (simp add: first_end_def block_end_None)
  next
    case (Some e)
    then have b: "p < e \<and> e \<le> length s" by (rule item_end_bounds)
    from Some obtain r where r: "ends step_item s p = e # r"
      by (auto simp: first_end_step_item [symmetric] first_end_eq_Some)
    from 1 Some b have "first_end (Star step_item) s e = Some (block_end s e)" by simp
    then obtain r' where "ends (Star step_item) s e = block_end s e # r'"
      by (auto simp: first_end_eq_Some)
    with r b have "\<exists>rest. ends (Star step_item) s p = block_end s e # rest"
      by (subst ends.simps(7)) simp
    with Some show ?thesis by (simp add: first_end_eq_Some block_end_Some)
  qed
qed

lemma first_end_step_pattern: "first_end step_pattern s p = block_at s p"
proof (cases "item_end s p")
  case None
  then have "ends step_item s p = []"
    by (simp add: first_end_step_item [symmetric] first_end_eq_None)
  with None show ?thesis by (simp add: first_end_def step_pattern_def Plus_def block_at_def)
next
  case (Some e)
  then obtain r where r: "ends step_item s p = e # r"
    by (auto simp: first_end_step_item [symmetric] first_end_eq_Some)
  obtain r' where "ends (Star step_item) s e = block_end s e # r'"
    using first_end_star_item [of s e] by (auto simp: first_end_eq_Some)
  with r Some show ?thesis by (simp add: first_end_def step_pattern_def Plus_def block_at_def)
qed

lemma first_match_first_end:
  "first_match r s (p # ps) =
     (case first_end r s p of None \<Rightarrow> first_match r s ps | Some e \<Rightarrow> Some (p, e))"
  by (simp add: first_end_def split: list.splits)

lemma first_match_upt: "first_match r s [p..<n] = find_from (first_end r s) p n"
proof (induction "first_end r s" p n rule: find_from.induct)
  case (1 p n)
  show ?case
  proof (cases "p < n")
    case True
    then have "[p..<n] = p # [Suc p..<n]" by (simp add: upt_conv_Cons)
    then have "first_match r s [p..<n] =
        (case first_end r s p of
           None \<Rightarrow> first_match r s [Suc p..<n] | Some e \<Rightarrow> Some (p, e))"
      by (simp only: first_match_first_end)
    with 1 True show ?thesis
      by (subst find_from.simps) (simp split: option.splits)
  next
    case False
    then show ?thesis by (subst find_from.simps) simp
  qed
qed

lemma re_search_step_pattern: "re_search step_pattern s = find_from (block_at s) 0 (Suc (length s))"
proof -
  have "first_end step_pattern s = block_at s" by (rule ext) (rule first_end_step_pattern)
  then show ?thesis by (simp only: re_search_def first_match_upt)
qed

lemma ends_skip_space_marker:
  "ends (Seq (Star (Cls is_space)) (Seq marker R)) s p = ends (Seq marker R) s (scan is_space s p)"
proof -
  have "concat (map (ends (Seq marker R) s) (rev [p..<Suc (scan is_space s p)])) =
        ends (Seq marker R) s (scan is_space s p)"
  proof (rule concat_map_rev_upt_last)
    show "p \<le> scan is_space s p" by (rule scan_ge)
  next
    fix q assume "p \<le> q" "q < scan is_space s p"
    then have "q < length s \<and> is_space (s ! q)" by (rule scan_all)
    then have "marker_end s q = None" by (simp add: marker_end_space)
    then show "ends (Seq marker R) s q = []" by (simp add: ends_marker)
  qed
  then show ?thesis by (simp add: ends_star_cls)
qed

lemma ends_bos: "ends (Seq Bos X) s 0 = ends X s 0"
  by simp

lemma first_end_item_prefix: "first_end item_prefix s 0 = prefix_end s"
proof (cases "marker_end s (scan is_space s 0)")
  case None
  have "ends item_prefix s 0 = ends (Seq marker (Plus (Cls is_space))) s (scan is_space s 0)"
    by (simp only: item_prefix_def ends_bos ends_skip_space_marker)
  with None have "ends item_prefix s 0 = []" by (simp add: ends_marker)
  with None show ?thesis by (simp add: first_end_def prefix_end_def)
next
  case (Some q)
  have "ends item_prefix s 0 = ends (Seq marker (Plus (Cls is_space))) s (scan is_space s 0)"
    by (simp only: item_prefix_def ends_bos ends_skip_space_marker)
  with Some have e: "ends item_prefix s 0 = ends (Plus (Cls is_space)) s q"
    by (simp add: ends_marker)
  show ?thesis
  proof (cases "q < length s \<and> is_space (s ! q)")
    case True
    then have "scan is_space s q = scan is_space s (Suc q)" by (simp add: scan_step)
    moreover have "Suc q \<le> scan is_space s (Suc q)" by (rule scan_ge)
    ultimately have "ends item_prefix s 0 = scan is_space s q # rev [Suc q..<scan is_space s q]"
      using True by (simp add: e Plus_def ends_star_cls)
    with Some True show ?thesis by (simp add: first_end_def prefix_end_def)
  next
    case False
    then have "ends (Cls is_space) s q = []" by auto
    then have "ends item_prefix s 0 = []" by (simp add: e Plus_def)
    with Some False show ?thesis by (auto simp: first_end_def prefix_end_def)
  qed
qed

lemma re_match_item_prefix: "re_match item_prefix s = None \<longleftrightarrow> prefix_end s = None"
  by (simp add: re_match_def first_end_item_prefix [symmetric] first_end_def split: list.splits)

lemma first_newline_back:
  "hi \<le> length s \<Longrightarrow>
   (case concat (map (\<lambda>a. if a < length s \<and> s ! a = 10 then [Suc a] else []) (rev [lo..<hi]))
    of [] \<Rightarrow> None | e # _ \<Rightarrow> Some e) = last_newline s lo hi"
proof (induction s lo hi rule: last_newline.induct)
  case (1 s lo hi)
  show ?case
  proof (cases "hi \<le> lo")
    case True
    then show ?thesis by (subst last_newline.simps) simp
  next
    case False
    then obtain h where h: "hi = Suc h" "lo \<le> h" by (cases hi) auto
    show ?thesis
    proof (cases "s ! h = 10")
      case True
      with h 1(2) show ?thesis by (subst last_newline.simps) simp
    next
      case n: False
      with h 1 False have
        "(case concat (map (\<lambda>a. if a < length s \<and> s ! a = 10 then [Suc a] else []) (rev [lo..<h]))
          of [] \<Rightarrow> None | e # _ \<Rightarrow> Some e) = last_newline s lo h" by simp
      with n h show ?thesis by (subst last_newline.simps) simp
    qed
  qed
qed

lemma ends_newline_fun:
  "ends (Cls newline) s = (\<lambda>a. if a < length s \<and> s ! a = 10 then [Suc a] else [])"
  by (rule ext) (simp add: newline_def)

lemma first_end_para_sep: "first_end para_sep s p = sep_end s p"
proof (cases "p < length s \<and> s ! p = 10")
  case True
  let ?hi = "scan is_space s (Suc p)"
  have hi: "?hi \<le> length s" using True by (intro scan_le) simp
  have "ends (Cls newline) s ?hi = []"
  proof (cases "?hi < length s")
    case True
    then have "\<not> is_space (s ! ?hi)" by (rule scan_stop)
    then have "s ! ?hi \<noteq> 10" by (auto simp: is_space_def)
    then show ?thesis by (simp add: newline_def)
  next
    case False
    then show ?thesis by simp
  qed
  moreover have "Suc p \<le> ?hi" by (rule scan_ge)
  ultimately have "ends para_sep s p = concat (map (ends (Cls newline) s) (rev [Suc p..<?hi]))"
    using True by (simp add: para_sep_def ends_star_cls newline_def)
  then have "first_end para_sep s p = last_newline s (Suc p) ?hi"
    using first_newline_back [OF hi, of "Suc p"] by (simp add: first_end_def ends_newline_fun)
  with True show ?thesis by (simp add: sep_end_def)
next
  case False
  then have "ends para_sep s p = []" by (auto simp: para_sep_def newline_def)
  with False show ?thesis by (auto simp: first_end_def sep_end_def)
qed

lemma re_split_from_para_sep:
  "re_split_from para_sep s pos =
     (case find_from (sep_end s) pos (Suc (length s)) of
        None \<Rightarrow> [drop pos s]
      | Some (i, j) \<Rightarrow>
          if pos < j \<and> j \<le> length s then slice s pos i # re_split_from para_sep s j
          else [drop pos s])"
proof -
  have "first_end para_sep s = sep_end s" by (rule ext) (rule first_end_para_sep)
  then show ?thesis by (subst re_split_from.simps) (simp only: first_match_upt)
qed

section \<open>Trimming, paragraphs and the prefix test\<close>

subsection \<open>strip\<close>

lemma strip_eq_Nil: "strip s = [] \<longleftrightarrow> list_all is_space s"
proof -
  let ?d = "dropWhile is_space s"
  have "strip s = [] \<longleftrightarrow> (\<forall>x\<in>set ?d. is_space x)"
    by (simp add: strip_def dropWhile_eq_Nil_conv)
  also have "\<dots> \<longleftrightarrow> ?d = []"
  proof
    assume a: "\<forall>x\<in>set ?d. is_space x"
    show "?d = []"
    proof (rule ccontr)
      assume n: "?d \<noteq> []"
      then have "\<not> is_space (hd ?d)" by (rule hd_dropWhile)
      moreover from n have "hd ?d \<in> set ?d" by simp
      ultimately show False using a by blast
    qed
  next
    assume d: "?d = []"
    show "\<forall>x\<in>set ?d. is_space x" unfolding d by simp
  qed
  also have "\<dots> \<longleftrightarrow> list_all is_space s"
    by (simp add: dropWhile_eq_Nil_conv list_all_iff)
  finally show ?thesis .
qed

lemma strip_hd: "strip s \<noteq> [] \<Longrightarrow> \<not> is_space (hd (strip s))"
proof -
  assume a: "strip s \<noteq> []"
  let ?d = "dropWhile is_space s"
  let ?e = "dropWhile is_space (rev ?d)"
  from a have e: "?e \<noteq> []" by (simp add: strip_def)
  then have d: "?d \<noteq> []" by (cases ?d) simp_all
  have "\<exists>ys. rev ?d = ys @ ?e" by (metis takeWhile_dropWhile_id)
  then obtain ys where "rev ?d = ys @ ?e" ..
  with e have "last ?e = last (rev ?d)" by (metis last_appendR)
  also have "\<dots> = hd ?d" using d by (simp add: last_rev)
  finally have "hd (strip s) = hd ?d" using e by (simp add: strip_def hd_rev)
  with d show ?thesis using hd_dropWhile [of is_space s] by simp
qed

lemma strip_last: "strip s \<noteq> [] \<Longrightarrow> \<not> is_space (last (strip s))"
proof -
  assume a: "strip s \<noteq> []"
  let ?e = "dropWhile is_space (rev (dropWhile is_space s))"
  from a have e: "?e \<noteq> []" by (simp add: strip_def)
  then have "\<not> is_space (hd ?e)" by (rule hd_dropWhile)
  with e show ?thesis by (simp add: strip_def last_rev)
qed

lemma strip_id: "s \<noteq> [] \<Longrightarrow> \<not> is_space (hd s) \<Longrightarrow> \<not> is_space (last s) \<Longrightarrow> strip s = s"
proof -
  assume a: "s \<noteq> []" "\<not> is_space (hd s)" "\<not> is_space (last s)"
  then have "dropWhile is_space s = s" by (cases s) auto
  moreover have "dropWhile is_space (rev s) = rev s"
    using a by (cases "rev s") (auto simp: last_rev [symmetric] simp del: last_rev)
  ultimately show ?thesis by (simp add: strip_def)
qed

lemma strip_Nil: "strip [] = []"
  by (simp add: strip_def)

lemma strip_strip: "strip (strip s) = strip s"
proof (cases "strip s = []")
  case True
  then show ?thesis by (simp only: strip_Nil)
next
  case False
  then show ?thesis by (intro strip_id strip_hd strip_last)
qed

lemma strip_nonempty: "c \<in> set s \<Longrightarrow> \<not> is_space c \<Longrightarrow> strip s \<noteq> []"
  by (auto simp: strip_eq_Nil list_all_iff)

subsection \<open>paragraphs\<close>

lemma paragraphs_of_stripped:
  "p \<in> set (paragraphs_of m) \<Longrightarrow> p \<noteq> [] \<and> \<not> is_space (hd p) \<and> \<not> is_space (last p) \<and> strip p = p"
  by (auto simp: paragraphs_of_def strip_hd strip_last strip_strip)

subsection \<open>the prefix test\<close>

lemma prefix_end_spec:
  assumes "p \<noteq> []" "\<not> is_space (hd p)"
  shows "prefix_end p \<noteq> None \<longleftrightarrow> begins_with_list_item_prefix p"
proof -
  from assms obtain a r where p: "p = a # r" and a: "\<not> is_space a" by (cases p) auto
  then have s0: "\<And>xs. scan is_space (a # xs) 0 = 0" by (simp add: scan_here)
  have excl: "\<And>x. digit19 x \<Longrightarrow> \<not> bullet x" by (auto simp: digit19_def bullet_def)
  show ?thesis
  proof (cases r)
    case Nil
    then show ?thesis
      unfolding p by (auto simp: prefix_end_def s0 marker_end_def begins_with_list_item_prefix_def)
  next
    case r: (Cons b r')
    show ?thesis
    proof (cases r')
      case Nil
      then show ?thesis
        unfolding p r using excl
        by (auto simp: prefix_end_def s0 marker_end_def begins_with_list_item_prefix_def)
    next
      case (Cons c r'')
      then show ?thesis
        unfolding p r using excl
        by (auto simp: prefix_end_def s0 marker_end_def begins_with_list_item_prefix_def)
    qed
  qed
qed

section \<open>Shape of a step block\<close>

lemma find_from_Some: "find_from f p n = Some (i, j) \<Longrightarrow> p \<le> i \<and> i < n \<and> f i = Some j"
proof (induction f p n rule: find_from.induct)
  case (1 f p n)
  show ?case
  proof (cases "p < n")
    case True
    show ?thesis
    proof (cases "f p")
      case None
      with True 1(2) have "find_from f (Suc p) n = Some (i, j)"
        by (subst (asm) find_from.simps) simp
      with 1(1) True None have "Suc p \<le> i \<and> i < n \<and> f i = Some j" by simp
      then show ?thesis by simp
    next
      case (Some e)
      with True 1(2) have "i = p \<and> j = e" by (subst (asm) find_from.simps) simp
      with True Some show ?thesis by simp
    qed
  next
    case False
    with 1(2) show ?thesis by (subst (asm) find_from.simps) simp
  qed
qed

lemma block_end_ge: "p \<le> block_end s p"
proof (induction s p rule: block_end.induct)
  case (1 s p)
  show ?case
  proof (cases "item_end s p")
    case None
    then show ?thesis by (simp add: block_end_None)
  next
    case (Some e)
    then have "p < e \<and> e \<le> length s" by (rule item_end_bounds)
    with 1 Some show ?thesis by (simp add: block_end_Some)
  qed
qed

lemma block_end_le: "p \<le> length s \<Longrightarrow> block_end s p \<le> length s"
proof (induction s p rule: block_end.induct)
  case (1 s p)
  show ?case
  proof (cases "item_end s p")
    case None
    with 1(2) show ?thesis by (simp add: block_end_None)
  next
    case (Some e)
    then have "p < e \<and> e \<le> length s" by (rule item_end_bounds)
    with 1 Some show ?thesis by (simp add: block_end_Some)
  qed
qed

subsection \<open>slices\<close>

lemma slice_append: "a \<le> b \<Longrightarrow> b \<le> c \<Longrightarrow> slice s a c = slice s a b @ slice s b c"
proof -
  assume ab: "a \<le> b" and bc: "b \<le> c"
  have "take (c - a) (drop a s) = take ((b - a) + (c - b)) (drop a s)" using ab bc by simp
  also have "\<dots> = take (b - a) (drop a s) @ take (c - b) (drop (b - a) (drop a s))"
    by (rule take_add)
  also have "drop (b - a) (drop a s) = drop b s" using ab by simp
  finally show ?thesis by (simp add: slice_def)
qed

lemma slice_same: "slice s a a = []"
  by (simp add: slice_def)

lemma slice_one: "a < length s \<Longrightarrow> slice s a (Suc a) = [s ! a]"
  by (simp add: slice_def take_Suc_conv_app_nth Cons_nth_drop_Suc [symmetric])

lemma slice_two: "Suc a < length s \<Longrightarrow> slice s a (Suc (Suc a)) = [s ! a, s ! Suc a]"
proof -
  assume a: "Suc a < length s"
  have "slice s a (Suc (Suc a)) = slice s a (Suc a) @ slice s (Suc a) (Suc (Suc a))"
    using slice_append [of a "Suc a" "Suc (Suc a)" s] by simp
  with a show ?thesis by (simp add: slice_one)
qed

lemma in_set_slice: "c \<in> set (slice s a b) \<Longrightarrow> \<exists>k. a \<le> k \<and> k < b \<and> k < length s \<and> c = s ! k"
proof -
  assume "c \<in> set (slice s a b)"
  then obtain n where n: "n < length (slice s a b)" "c = slice s a b ! n"
    by (auto simp: in_set_conv_nth)
  then have "n < b - a" "a + n < length s" by (auto simp: slice_def)
  moreover from this n have "c = s ! (a + n)" by (simp add: slice_def)
  ultimately show ?thesis by (intro exI [of _ "a + n"]) auto
qed

lemma nth_in_slice: "a \<le> k \<Longrightarrow> k < b \<Longrightarrow> k < length s \<Longrightarrow> s ! k \<in> set (slice s a b)"
proof -
  assume a: "a \<le> k" "k < b" "k < length s"
  then have "k - a < length (slice s a b)" by (auto simp: slice_def)
  moreover have "slice s a b ! (k - a) = s ! k" using a by (simp add: slice_def)
  ultimately show ?thesis by (metis nth_mem)
qed

lemma slice_scan_all: "list_all P (slice s a (scan P s a))"
proof -
  have "\<And>c. c \<in> set (slice s a (scan P s a)) \<Longrightarrow> P c"
  proof -
    fix c assume "c \<in> set (slice s a (scan P s a))"
    then obtain k where "a \<le> k" "k < scan P s a" "c = s ! k" using in_set_slice by blast
    then show "P c" using scan_all [of a k P s] by simp
  qed
  then show ?thesis by (simp add: list_all_iff)
qed

subsection \<open>what a step block looks like\<close>

lemma re_search_step_pattern_Some:
  assumes "re_search step_pattern m = Some (i, j)"
  shows "i \<le> length m \<and> (i = 0 \<or> m ! (i - 1) = 10) \<and>
         (\<exists>e. item_end m i = Some e \<and> j = block_end m e)"
proof -
  from assms have "find_from (block_at m) 0 (Suc (length m)) = Some (i, j)"
    by (simp only: re_search_step_pattern)
  then have "i < Suc (length m) \<and> block_at m i = Some j" by (auto dest: find_from_Some)
  then show ?thesis by (auto simp: block_at_def split: if_splits option.splits)
qed

lemma item_end_marker:
  assumes "item_end s p = Some e"
  shows "\<exists>k. p \<le> k \<and> k < e \<and> k < length s \<and> \<not> is_space (s ! k)"
proof -
  let ?k = "scan is_space s p"
  from assms obtain q where m: "marker_end s ?k = Some q"
    and q: "q < length s" and e: "e = line_end s (scan is_space s q)"
    by (auto simp: item_end_def split: option.splits if_splits)
  from m have kq: "?k < q" by (simp add: marker_end_bounds)
  have "q \<le> scan is_space s q" by (rule scan_ge)
  also have "\<dots> \<le> e" unfolding e by (rule line_end_ge)
  finally have "?k < e" using kq by simp
  moreover have "p \<le> ?k" by (rule scan_ge)
  moreover have "?k < length s" using kq q by simp
  moreover from this have "\<not> is_space (s ! ?k)" by (rule scan_stop)
  ultimately show ?thesis by blast
qed

lemma step_block_not_blank:
  assumes "re_search step_pattern m = Some (i, j)"
  shows "strip (slice m i j) \<noteq> []"
proof -
  from assms obtain e where e: "item_end m i = Some e" and j: "j = block_end m e"
    using re_search_step_pattern_Some by blast
  from e obtain k where k: "i \<le> k" "k < e" "k < length m" "\<not> is_space (m ! k)"
    using item_end_marker by blast
  have "e \<le> j" unfolding j by (rule block_end_ge)
  with k have "m ! k \<in> set (slice m i j)" by (intro nth_in_slice) auto
  from this k(4) show ?thesis by (rule strip_nonempty)
qed

lemma hd_slice: "a < b \<Longrightarrow> a < length s \<Longrightarrow> hd (slice s a b) = s ! a"
  by (simp add: slice_def hd_drop_conv_nth)

lemma slice_nonempty: "a < b \<Longrightarrow> a < length s \<Longrightarrow> slice s a b \<noteq> []"
  by (simp add: slice_def)

lemma item_end_text:
  assumes "item_end s p = Some e" and "e < length s \<or> at_end"
  shows "item_text at_end (slice s p e)"
proof -
  let ?k = "scan is_space s p"
  from assms(1) obtain q where m: "marker_end s ?k = Some q"
    and q: "q < length s" "is_space (s ! q)" and e: "e = line_end s (scan is_space s q)"
    by (auto simp: item_end_def split: option.splits if_splits)
  let ?v = "scan is_space s q"
  let ?u = "scan not_newline s ?v"
  have pk: "p \<le> ?k" by (rule scan_ge)
  have kq: "?k < q" using m by (simp add: marker_end_bounds)
  have "?v = scan is_space s (Suc q)" using q by (simp add: scan_step)
  then have qv: "q < ?v" using scan_ge [of "Suc q" is_space s] by simp
  have vu: "?v \<le> ?u" by (rule scan_ge)
  have vl: "?v \<le> length s" using q by (intro scan_le) simp
  then have ul: "?u \<le> length s" by (rule scan_le)
  have ue: "?u \<le> e" by (simp add: e line_end_def Let_def)
  have mk: "marker_text (slice s ?k q)"
    using m by (auto simp: marker_end_def marker_text_def slice_one slice_two split: if_splits)
  have gap: "slice s q ?v \<noteq> []" using qv q by (simp add: slice_def)
  have body: "10 \<notin> set (slice s ?v ?u)"
    using slice_scan_all [of not_newline s ?v] by (auto simp: list_all_iff not_newline_def)
  have first: "?v < length s \<Longrightarrow> ?v < ?u"
  proof -
    assume l: "?v < length s"
    then have "\<not> is_space (s ! ?v)" by (rule scan_stop)
    then have "not_newline (s ! ?v)" by (auto simp: not_newline_def is_space_def)
    with l have "?u = scan not_newline s (Suc ?v)" by (simp add: scan_step)
    then show ?thesis using scan_ge [of "Suc ?v" not_newline s] by simp
  qed
  have start: "slice s ?v ?u = [] \<or> \<not> is_space (hd (slice s ?v ?u))"
  proof (cases "?v < length s")
    case True
    then have "\<not> is_space (s ! ?v)" by (rule scan_stop)
    with True first show ?thesis by (simp add: hd_slice)
  next
    case False
    then show ?thesis by (simp add: slice_def)
  qed
  have fin: "slice s ?u e = [10] \<and> slice s ?v ?u \<noteq> [] \<or> slice s ?u e = [] \<and> at_end"
  proof (cases "?u < length s")
    case True
    then have "\<not> not_newline (s ! ?u)" by (rule scan_stop)
    then have "s ! ?u = 10" by (simp add: not_newline_def)
    moreover have "e = Suc ?u" using True by (simp add: e line_end_def)
    ultimately have "slice s ?u e = [10]" using True by (simp add: slice_one)
    moreover have "?v < length s" using vu True by simp
    then have "slice s ?v ?u \<noteq> []" using first by (simp add: slice_nonempty)
    ultimately show ?thesis by simp
  next
    case False
    with ul have "?u = length s" by simp
    moreover from False have eu: "e = ?u" by (simp add: e line_end_def)
    ultimately have "at_end" using assms(2) by simp
    with eu show ?thesis by (simp add: slice_same)
  qed
  have "slice s p e = slice s p ?k @ slice s ?k e"
    using pk kq qv vu ue by (intro slice_append) auto
  also have "slice s ?k e = slice s ?k q @ slice s q e"
    using kq qv vu ue by (intro slice_append) auto
  also have "slice s q e = slice s q ?v @ slice s ?v e"
    using qv vu ue by (intro slice_append) auto
  also have "slice s ?v e = slice s ?v ?u @ slice s ?u e"
    using vu ue by (intro slice_append) auto
  finally have parts: "slice s p e =
      slice s p ?k @ slice s ?k q @ slice s q ?v @ slice s ?v ?u @ slice s ?u e" .
  show ?thesis
    unfolding item_text_def
  proof (intro exI conjI)
    show "slice s p e =
      slice s p ?k @ slice s ?k q @ slice s q ?v @ slice s ?v ?u @ slice s ?u e" by (rule parts)
    show "list_all is_space (slice s p ?k)" by (rule slice_scan_all)
    show "marker_text (slice s ?k q)" by (rule mk)
    show "slice s q ?v \<noteq> []" by (rule gap)
    show "list_all is_space (slice s q ?v)" by (rule slice_scan_all)
    show "10 \<notin> set (slice s ?v ?u)" by (rule body)
    show "slice s ?v ?u = [] \<or> \<not> is_space (hd (slice s ?v ?u))" by (rule start)
    show "slice s ?u e = [10] \<and> slice s ?v ?u \<noteq> [] \<or> slice s ?u e = [] \<and> at_end"
      by (rule fin)
  qed
qed

lemma block_end_items:
  "item_end s p = Some e \<Longrightarrow>
   \<exists>ws. ws \<noteq> [] \<and> slice s p (block_end s e) = concat ws \<and>
        list_all (item_text False) (butlast ws) \<and>
        item_text (block_end s e = length s) (last ws)"
proof (induction s p arbitrary: e rule: block_end.induct)
  case (1 s p)
  from 1(2) have b: "p < e \<and> e \<le> length s" by (rule item_end_bounds)
  show ?case
  proof (cases "item_end s e")
    case None
    then have be: "block_end s e = e" by (rule block_end_None)
    have "item_text (e = length s) (slice s p e)"
      using 1(2) b by (intro item_end_text) auto
    then show ?thesis
      unfolding be by (intro exI [of _ "[slice s p e]"]) simp
  next
    case (Some e')
    then have b': "e < e' \<and> e' \<le> length s" by (rule item_end_bounds)
    from 1(1) [OF 1(2) b Some] obtain ws where ws: "ws \<noteq> []"
      "slice s e (block_end s e') = concat ws"
      "list_all (item_text False) (butlast ws)"
      "item_text (block_end s e' = length s) (last ws)" by blast
    have be: "block_end s e = block_end s e'" using Some by (rule block_end_Some)
    have first: "item_text False (slice s p e)"
      using 1(2) b' by (intro item_end_text) auto
    have "e \<le> block_end s e'" using b' block_end_ge [of e' s] by simp
    with b have "slice s p (block_end s e') = slice s p e @ slice s e (block_end s e')"
      by (intro slice_append) auto
    with ws have "slice s p (block_end s e') = concat (slice s p e # ws)" by simp
    moreover have "list_all (item_text False) (butlast (slice s p e # ws))"
      using ws first by simp
    moreover have "item_text (block_end s e' = length s) (last (slice s p e # ws))"
      using ws by simp
    ultimately show ?thesis unfolding be by (intro exI [of _ "slice s p e # ws"]) simp
  qed
qed

lemma block_end_maximal: "item_end s (block_end s p) = None"
proof (induction s p rule: block_end.induct)
  case (1 s p)
  show ?case
  proof (cases "item_end s p")
    case None
    then show ?thesis by (simp add: block_end_None)
  next
    case (Some e)
    then have "p < e \<and> e \<le> length s" by (rule item_end_bounds)
    with 1 Some show ?thesis by (simp add: block_end_Some)
  qed
qed

lemma find_from_first: "find_from f p n = Some (i, j) \<Longrightarrow> p \<le> k \<Longrightarrow> k < i \<Longrightarrow> f k = None"
proof (induction f p n rule: find_from.induct)
  case (1 f p n)
  show ?case
  proof (cases "p < n")
    case True
    show ?thesis
    proof (cases "f p")
      case None
      with True 1(2) have r: "find_from f (Suc p) n = Some (i, j)"
        by (subst (asm) find_from.simps) simp
      show ?thesis
      proof (cases "k = p")
        case True
        with None show ?thesis by simp
      next
        case False
        with 1(3) have "Suc p \<le> k" by simp
        with 1(1) True None r 1(4) show ?thesis by simp
      qed
    next
      case (Some e)
      with True 1(2) have "i = p" by (subst (asm) find_from.simps) simp
      with 1(3,4) show ?thesis by simp
    qed
  next
    case False
    with 1(2) show ?thesis by (subst (asm) find_from.simps) simp
  qed
qed

lemma scan_takeWhile: "scan P s p = p + length (takeWhile P (drop p s))"
proof (induction P s p rule: scan.induct)
  case (1 P s p)
  show ?case
  proof (cases "p < length s \<and> P (s ! p)")
    case True
    then have "drop p s = s ! p # drop (Suc p) s" by (simp add: Cons_nth_drop_Suc)
    with True 1 show ?thesis by (simp add: scan_step)
  next
    case False
    show ?thesis
    proof (cases "p < length s")
      case True
      then have "drop p s = s ! p # drop (Suc p) s" by (simp add: Cons_nth_drop_Suc)
      with False True show ?thesis by (simp add: scan_here)
    next
      case n: False
      then show ?thesis by (simp add: scan_here)
    qed
  qed
qed

lemma marker_text_head: "marker_text mk \<Longrightarrow> mk \<noteq> [] \<and> \<not> is_space (hd mk)"
  by (auto simp: marker_text_def digit19_def bullet_def is_space_def)

lemma item_begins_item_end:
  assumes "item_begins (drop p s)"
  shows "item_end s p \<noteq> None"
proof -
  from assms obtain lead mk sp rest where t: "drop p s = lead @ mk @ sp # rest"
    and lead: "list_all is_space lead" and mk: "marker_text mk" and sp: "is_space sp"
    unfolding item_begins_def by blast
  from mk have mh: "mk \<noteq> [] \<and> \<not> is_space (hd mk)" by (rule marker_text_head)
  then obtain h mk' where mk': "mk = h # mk'" "\<not> is_space h" by (cases mk) auto
  have "takeWhile is_space (drop p s) = lead"
    unfolding t using lead mk' by (simp add: list_all_iff)
  then have k: "scan is_space s p = p + length lead" by (simp add: scan_takeWhile)
  have len: "length s = p + (length lead + length mk + Suc (length rest))"
  proof -
    have "length (drop p s) = length lead + length mk + Suc (length rest)" by (simp add: t)
    then show ?thesis by simp
  qed
  have nth: "\<And>n. n < length mk + Suc (length rest) \<Longrightarrow>
      s ! (p + length lead + n) = (mk @ sp # rest) ! n"
  proof -
    fix n assume "n < length mk + Suc (length rest)"
    have "p \<le> length s" using len by simp
    then have "s ! (p + (length lead + n)) = drop p s ! (length lead + n)" by simp
    also have "\<dots> = (mk @ sp # rest) ! n" unfolding t by (simp add: nth_append)
    finally show "s ! (p + length lead + n) = (mk @ sp # rest) ! n" by (simp add: add.assoc)
  qed
  let ?k = "p + length lead"
  from mk consider (num) d c where "mk = [d, c]" "digit19 d" "dot_or_paren c"
    | (bul) b where "mk = [b]" "bullet b"
    unfolding marker_text_def by blast
  then show ?thesis
  proof cases
    case num
    have "s ! ?k = d" using nth [of 0] num by simp
    moreover have "s ! Suc ?k = c" using nth [of 1] num by simp
    moreover have "s ! (?k + 2) = sp" using nth [of 2] num by simp
    moreover have "?k + 2 < length s" using len num by simp
    ultimately show ?thesis
      using num sp by (simp add: item_end_def k marker_end_def)
  next
    case bul
    then have nd: "\<not> digit19 b" by (auto simp: digit19_def bullet_def)
    have "s ! ?k = b" using nth [of 0] bul by simp
    moreover have "s ! Suc ?k = sp" using nth [of 1] bul by simp
    moreover have "Suc ?k < length s" using len bul by simp
    ultimately show ?thesis
      using bul sp nd by (simp add: item_end_def k marker_end_def)
  qed
qed

section \<open>Paragraph splitting\<close>

lemma last_newline_Some:
  "last_newline s lo hi = Some e \<Longrightarrow> lo < e \<and> e \<le> hi \<and> s ! (e - 1) = 10"
proof (induction s lo hi rule: last_newline.induct)
  case (1 s lo hi)
  show ?case
  proof (cases "hi \<le> lo")
    case True
    with 1(2) show ?thesis by (subst (asm) last_newline.simps) simp
  next
    case False
    show ?thesis
    proof (cases "s ! (hi - 1) = 10")
      case True
      with False 1(2) have "e = hi" by (subst (asm) last_newline.simps) simp
      with True False show ?thesis by simp
    next
      case n: False
      with False 1(2) have "last_newline s lo (hi - 1) = Some e"
        by (subst (asm) last_newline.simps) simp
      with 1(1) False n have "lo < e \<and> e \<le> hi - 1 \<and> s ! (e - 1) = 10" by simp
      then show ?thesis by auto
    qed
  qed
qed

lemma sep_end_Some:
  assumes "sep_end s p = Some e"
  shows "p < length s \<and> s ! p = 10 \<and> Suc p < e \<and> e \<le> length s \<and> s ! (e - 1) = 10"
proof -
  from assms have p: "p < length s" "s ! p = 10"
    and l: "last_newline s (Suc p) (scan is_space s (Suc p)) = Some e"
    by (auto simp: sep_end_def split: if_splits)
  from l have "Suc p < e \<and> e \<le> scan is_space s (Suc p) \<and> s ! (e - 1) = 10"
    by (rule last_newline_Some)
  moreover have "scan is_space s (Suc p) \<le> length s" using p by (intro scan_le) simp
  ultimately show ?thesis using p by simp
qed

lemma re_split_from_last:
  "pos \<le> length s \<Longrightarrow>
   re_split_from para_sep s pos \<noteq> [] \<and>
   (\<exists>q. pos \<le> q \<and> q \<le> length s \<and> (q = pos \<or> s ! (q - 1) = 10) \<and>
        last (re_split_from para_sep s pos) = drop q s)"
proof (induction "length s - pos" arbitrary: pos rule: less_induct)
  case less
  show ?case
  proof (cases "find_from (sep_end s) pos (Suc (length s))")
    case None
    then have "re_split_from para_sep s pos = [drop pos s]"
      by (subst re_split_from_para_sep) simp
    with less.prems show ?thesis by auto
  next
    case (Some ij)
    obtain i j where ij: "ij = (i, j)" by (cases ij)
    with Some have f: "find_from (sep_end s) pos (Suc (length s)) = Some (i, j)" by simp
    then have "pos \<le> i \<and> sep_end s i = Some j" by (auto dest: find_from_Some)
    then have b: "pos \<le> i" "Suc i < j" "j \<le> length s" "s ! (j - 1) = 10"
      using sep_end_Some [of s i j] by auto
    then have eq: "re_split_from para_sep s pos = slice s pos i # re_split_from para_sep s j"
      using f by (subst re_split_from_para_sep) simp
    have "length s - j < length s - pos" using b by simp
    from less.hyps [OF this b(3)] obtain q where
      ne: "re_split_from para_sep s j \<noteq> []" and
      q: "j \<le> q" "q \<le> length s" "q = j \<or> s ! (q - 1) = 10"
         "last (re_split_from para_sep s j) = drop q s" by blast
    from q(3) b(4) have "s ! (q - 1) = 10" by auto
    moreover have "pos \<le> q" using b q by simp
    moreover have "last (re_split_from para_sep s pos) = drop q s" using eq ne q(4) by simp
    ultimately show ?thesis using eq q(2) by auto
  qed
qed

lemma paragraphs_of_Nil: "paragraphs_of [] = []"
proof -
  have "find_from (sep_end []) 0 (Suc 0) = None"
    by (simp add: find_from.simps sep_end_def)
  then have "re_split_from para_sep [] 0 = [[]]"
    by (subst re_split_from_para_sep) simp
  then show ?thesis by (simp add: paragraphs_of_def re_split_def strip_Nil)
qed

lemma is_space_newline: "is_space 10"
  by (simp add: is_space_def)

lemma single_paragraph:
  assumes st: "strip m = m" and one: "length (paragraphs_of m) = 1"
  shows "paragraphs_of m = [m]"
proof -
  from one have ne: "m \<noteq> []" using paragraphs_of_Nil by auto
  with st have sm: "strip m \<noteq> []" by simp
  have h: "\<not> is_space (hd m)" using strip_hd [OF sm] st by simp
  have l: "\<not> is_space (last m)" using strip_last [OF sm] st by simp
  let ?P = "\<lambda>p. strip p \<noteq> []"
  show ?thesis
  proof (cases "find_from (sep_end m) 0 (Suc (length m))")
    case None
    then have "re_split_from para_sep m 0 = [m]"
      by (subst re_split_from_para_sep) simp
    with sm st show ?thesis by (simp add: paragraphs_of_def re_split_def)
  next
    case (Some ij)
    obtain i j where ij: "ij = (i, j)" by (cases ij)
    with Some have f: "find_from (sep_end m) 0 (Suc (length m)) = Some (i, j)" by simp
    then have "sep_end m i = Some j" by (auto dest: find_from_Some)
    then have b: "i < length m" "m ! i = 10" "Suc i < j" "j \<le> length m" "m ! (j - 1) = 10"
      using sep_end_Some [of m i j] by auto
    let ?rest = "re_split_from para_sep m j"
    have eq: "re_split_from para_sep m 0 = slice m 0 i # ?rest"
      using f b by (subst re_split_from_para_sep) simp
    have "i \<noteq> 0"
    proof
      assume "i = 0"
      with b(2) ne have "hd m = 10" by (simp add: hd_conv_nth)
      with h show False by (simp add: is_space_newline)
    qed
    then have "m ! 0 \<in> set (slice m 0 i)" using b(1) by (intro nth_in_slice) auto
    moreover have "\<not> is_space (m ! 0)" using h ne by (simp add: hd_conv_nth)
    ultimately have first: "?P (slice m 0 i)" by (rule strip_nonempty)
    from re_split_from_last [OF b(4)] obtain q where
      rne: "?rest \<noteq> []" and
      q: "j \<le> q" "q \<le> length m" "q = j \<or> m ! (q - 1) = 10" "last ?rest = drop q m" by blast
    from q(3) b(5) have q10: "m ! (q - 1) = 10" by auto
    have "q \<noteq> length m"
    proof
      assume "q = length m"
      with q10 ne have "last m = 10" by (simp add: last_conv_nth)
      with l show False by (simp add: is_space_newline)
    qed
    with q(2) have ql: "q < length m" by simp
    then have "last (drop q m) = last m" by simp
    moreover have "last (drop q m) \<in> set (drop q m)" using ql by (intro last_in_set) simp
    ultimately have "last m \<in> set (drop q m)" by simp
    from this l have "?P (drop q m)" by (rule strip_nonempty)
    with q(4) have "?P (last ?rest)" by simp
    moreover have "last ?rest \<in> set ?rest" using rne by simp
    ultimately have "filter ?P ?rest \<noteq> []" by (auto simp: filter_empty_conv)
    then have "2 \<le> length (filter ?P (re_split_from para_sep m 0))"
      using first eq by (cases "filter ?P ?rest") simp_all
    then have "2 \<le> length (paragraphs_of m)" by (simp add: paragraphs_of_def re_split_def)
    with one show ?thesis by simp
  qed
qed

subsection \<open>The paragraphs within the text\<close>

lemma strip_decompose:
  "\<exists>lw tw. w = lw @ strip w @ tw \<and> list_all is_space lw \<and> list_all is_space tw"
proof -
  let ?d = "dropWhile is_space w"
  have "rev (takeWhile is_space (rev ?d) @ dropWhile is_space (rev ?d)) = ?d"
    by (simp only: takeWhile_dropWhile_id rev_rev_ident)
  then have "rev (dropWhile is_space (rev ?d)) @ rev (takeWhile is_space (rev ?d)) = ?d"
    by (simp only: rev_append)
  then have d: "?d = strip w @ rev (takeWhile is_space (rev ?d))"
    unfolding strip_def by (rule sym)
  have "w = takeWhile is_space w @ ?d" by simp
  with d have "w = takeWhile is_space w @ strip w @ rev (takeWhile is_space (rev ?d))" by simp
  moreover have "list_all is_space (takeWhile is_space w)"
    by (auto simp: list_all_iff dest: set_takeWhileD)
  moreover have "list_all is_space (rev (takeWhile is_space (rev ?d)))"
    by (auto simp: list_all_iff dest: set_takeWhileD)
  ultimately show ?thesis by blast
qed

lemma has_blank_line_infix: "has_blank_line t \<Longrightarrow> has_blank_line (x @ t @ y)"
proof -
  assume "has_blank_line t"
  then obtain a b c where "t = a @ 10 # b @ 10 # c" "list_all is_space b"
    unfolding has_blank_line_def by blast
  then have "x @ t @ y = (x @ a) @ 10 # b @ 10 # (c @ y) \<and> list_all is_space b" by simp
  then show ?thesis unfolding has_blank_line_def by blast
qed

lemma strip_no_blank_line: "\<not> has_blank_line w \<Longrightarrow> \<not> has_blank_line (strip w)"
proof -
  obtain lw tw where "w = lw @ strip w @ tw" using strip_decompose by blast
  then show "\<not> has_blank_line w \<Longrightarrow> \<not> has_blank_line (strip w)"
    using has_blank_line_infix [of "strip w" lw tw] by auto
qed

lemma find_from_None: "find_from f p n = None \<Longrightarrow> p \<le> k \<Longrightarrow> k < n \<Longrightarrow> f k = None"
proof (induction f p n rule: find_from.induct)
  case (1 f p n)
  from 1(3,4) have pn: "p < n" by simp
  show ?case
  proof (cases "f p")
    case None
    with pn 1(2) have r: "find_from f (Suc p) n = None"
      by (subst (asm) find_from.simps) simp
    show ?thesis
    proof (cases "k = p")
      case True
      with None show ?thesis by simp
    next
      case False
      with 1(3) have "Suc p \<le> k" by simp
      with 1(1) pn None r 1(4) show ?thesis by simp
    qed
  next
    case (Some e)
    with pn 1(2) show ?thesis by (subst (asm) find_from.simps) simp
  qed
qed

lemma scan_lower:
  "(\<And>y. a \<le> y \<Longrightarrow> y < b \<Longrightarrow> y < length s \<and> P (s ! y)) \<Longrightarrow> a \<le> b \<Longrightarrow> b \<le> scan P s a"
proof (induction P s a rule: scan.induct)
  case (1 P s a)
  show ?case
  proof (cases "a = b")
    case True
    then show ?thesis by (simp add: scan_ge)
  next
    case False
    with 1(3) have ab: "a < b" by simp
    with 1(2) [of a] have h: "a < length s \<and> P (s ! a)" by simp
    then have eq: "scan P s a = scan P s (Suc a)" by (simp add: scan_step)
    have "b \<le> scan P s (Suc a)"
    proof (rule 1(1))
      show "a < length s \<and> P (s ! a)" by (rule h)
      show "Suc a \<le> b" using ab by simp
    next
      fix y assume "Suc a \<le> y" "y < b"
      then show "y < length s \<and> P (s ! y)" using 1(2) [of y] by simp
    qed
    with eq show ?thesis by simp
  qed
qed

lemma last_newline_exists:
  "lo \<le> x \<Longrightarrow> x < hi \<Longrightarrow> s ! x = 10 \<Longrightarrow> last_newline s lo hi \<noteq> None"
proof (induction s lo hi rule: last_newline.induct)
  case (1 s lo hi)
  from 1(2,3) have n: "\<not> hi \<le> lo" by simp
  show ?case
  proof (cases "s ! (hi - 1) = 10")
    case True
    with n show ?thesis by (subst last_newline.simps) simp
  next
    case False
    with 1(3,4) have "x < hi - 1" by (cases "x = hi - 1") auto
    with 1(1) n False 1(2,4) have "last_newline s lo (hi - 1) \<noteq> None" by simp
    with n False show ?thesis by (subst last_newline.simps) simp
  qed
qed

lemma nth_slice: "n < b - a \<Longrightarrow> b \<le> length s \<Longrightarrow> slice s a b ! n = s ! (a + n)"
  by (simp add: slice_def)

lemma length_slice: "b \<le> length s \<Longrightarrow> length (slice s a b) = b - a"
  by (simp add: slice_def)

lemma piece_no_blank_line:
  assumes none: "\<And>k. pos \<le> k \<Longrightarrow> k < i \<Longrightarrow> sep_end s k = None" and i: "i \<le> length s"
  shows "\<not> has_blank_line (slice s pos i)"
proof
  assume "has_blank_line (slice s pos i)"
  then obtain a b c where t: "slice s pos i = a @ 10 # b @ 10 # c" and b: "list_all is_space b"
    unfolding has_blank_line_def by blast
  have "length (slice s pos i) = i - pos" using i by (rule length_slice)
  with t have len: "i - pos = length a + length b + length c + 2" by simp
  have nth: "\<And>n. n < i - pos \<Longrightarrow> s ! (pos + n) = (a @ 10 # b @ 10 # c) ! n"
    using nth_slice [OF _ i, of _ pos] t by simp
  let ?k = "pos + length a"
  let ?x = "Suc (?k + length b)"
  have k: "s ! ?k = 10" using nth [of "length a"] len by simp
  have x: "s ! ?x = 10"
    using nth [of "Suc (length a + length b)"] len by (simp add: nth_append add.assoc)
  have xi: "?x < i" using len by simp
  have mid: "\<And>y. Suc ?k \<le> y \<Longrightarrow> y < ?x \<Longrightarrow> is_space (s ! y)"
  proof -
    fix y assume y: "Suc ?k \<le> y" "y < ?x"
    let ?n = "y - Suc ?k"
    have n: "?n < length b" using y by simp
    have "s ! (pos + (Suc (length a) + ?n)) = (a @ 10 # b @ 10 # c) ! (Suc (length a) + ?n)"
      using len n by (intro nth) simp
    also have "\<dots> = b ! ?n" using n by (simp add: nth_append)
    finally have "s ! y = b ! ?n" using y by simp
    with b n show "is_space (s ! y)" by (simp add: list_all_iff)
  qed
  have "Suc ?x \<le> scan is_space s (Suc ?k)"
  proof (rule scan_lower)
    fix y assume y: "Suc ?k \<le> y" "y < Suc ?x"
    show "y < length s \<and> is_space (s ! y)"
    proof (cases "y = ?x")
      case True
      with x xi i show ?thesis by (simp add: is_space_newline)
    next
      case False
      with y have "y < ?x" by simp
      with y(1) mid xi i show ?thesis by simp
    qed
  qed simp
  then have "last_newline s (Suc ?k) (scan is_space s (Suc ?k)) \<noteq> None"
    using x by (intro last_newline_exists [of _ ?x]) auto
  moreover have "?k < length s" using xi i by simp
  ultimately have "sep_end s ?k \<noteq> None" using k by (simp add: sep_end_def)
  moreover have "sep_end s ?k = None" using xi by (intro none) auto
  ultimately show False by simp
qed

lemma sep_end_text:
  assumes "sep_end s i = Some j"
  shows "list_all is_space (slice s i j) \<and> has_blank_line (slice s i j)"
proof -
  from assms have p: "i < length s" "s ! i = 10"
    and l: "last_newline s (Suc i) (scan is_space s (Suc i)) = Some j"
    by (auto simp: sep_end_def split: if_splits)
  from l have j: "Suc i < j" "j \<le> scan is_space s (Suc i)" "s ! (j - 1) = 10"
    using last_newline_Some [of s "Suc i" _ j] by auto
  have sl: "scan is_space s (Suc i) \<le> length s" using p by (intro scan_le) simp
  with j have jl: "j \<le> length s" by simp
  have sp: "\<And>c. c \<in> set (slice s i j) \<Longrightarrow> is_space c"
  proof -
    fix c assume "c \<in> set (slice s i j)"
    then obtain k where k: "i \<le> k" "k < j" "c = s ! k" using in_set_slice by blast
    show "is_space c"
    proof (cases "k = i")
      case True
      with k p show ?thesis by (simp add: is_space_newline)
    next
      case False
      with k j have "Suc i \<le> k" "k < scan is_space s (Suc i)" by auto
      then show ?thesis using scan_all [of "Suc i" k is_space s] k by simp
    qed
  qed
  have "slice s i j = slice s i (Suc i) @ slice s (Suc i) j"
    using j by (intro slice_append) auto
  also have "slice s (Suc i) j = slice s (Suc i) (j - 1) @ slice s (j - 1) j"
    using j by (intro slice_append) auto
  also have "slice s (j - 1) j = [10]"
    using slice_one [of "j - 1" s] j jl by simp
  also have "slice s i (Suc i) = [10]" using p by (simp add: slice_one)
  finally have parts: "slice s i j = [] @ 10 # slice s (Suc i) (j - 1) @ 10 # []" by simp
  have "set (slice s (Suc i) (j - 1)) \<subseteq> set (slice s i j)" by (subst parts) auto
  with sp have "list_all is_space (slice s (Suc i) (j - 1))" by (auto simp: list_all_iff)
  with parts have "has_blank_line (slice s i j)" unfolding has_blank_line_def by blast
  with sp show ?thesis by (simp add: list_all_iff)
qed

lemma weave_prepend: "weave ((x @ g) # gs) ps = x @ weave (g # gs) ps"
  by (cases ps) simp_all

lemma weave_base:
  "\<exists>gaps. length gaps = Suc (length (map strip (filter (\<lambda>p. strip p \<noteq> []) [w]))) \<and>
          w = weave gaps (map strip (filter (\<lambda>p. strip p \<noteq> []) [w])) \<and>
          list_all (list_all is_space) gaps \<and> list_all has_blank_line (butlast (tl gaps))"
proof (cases "strip w = []")
  case True
  then have "list_all is_space w" by (simp add: strip_eq_Nil)
  with True show ?thesis by (intro exI [of _ "[w]"]) simp
next
  case False
  obtain lw tw where "w = lw @ strip w @ tw" "list_all is_space lw" "list_all is_space tw"
    using strip_decompose by blast
  with False show ?thesis by (intro exI [of _ "[lw, tw]"]) simp
qed

lemma weave_step:
  assumes len: "length gaps = Suc (length ps)"
      and sp: "list_all (list_all is_space) gaps"
      and bl: "list_all has_blank_line (butlast (tl gaps))"
      and sep: "list_all is_space sep" "has_blank_line sep"
  shows "\<exists>gaps'. length gaps' = Suc (length (map strip (filter (\<lambda>p. strip p \<noteq> []) [w]) @ ps)) \<and>
           w @ sep @ weave gaps ps = weave gaps' (map strip (filter (\<lambda>p. strip p \<noteq> []) [w]) @ ps) \<and>
           list_all (list_all is_space) gaps' \<and> list_all has_blank_line (butlast (tl gaps'))"
proof -
  from len obtain g gs where g: "gaps = g # gs" by (cases gaps) auto
  show ?thesis
  proof (cases "strip w = []")
    case True
    then have w: "list_all is_space w" by (simp add: strip_eq_Nil)
    have "weave ((w @ sep @ g) # gs) ps = w @ sep @ weave gaps ps"
      using weave_prepend [of "w @ sep" g gs ps] g by simp
    with True w len sp bl sep g show ?thesis
      by (intro exI [of _ "(w @ sep @ g) # gs"]) simp
  next
    case False
    obtain lw tw where d: "w = lw @ strip w @ tw" "list_all is_space lw" "list_all is_space tw"
      using strip_decompose by blast
    have e: "weave (lw # (tw @ sep @ g) # gs) (strip w # ps) = w @ sep @ weave gaps ps"
      using weave_prepend [of "tw @ sep" g gs ps] g d(1) by simp
    have h: "has_blank_line (tw @ sep @ g)" using sep(2) by (rule has_blank_line_infix)
    have "list_all has_blank_line (butlast ((tw @ sep @ g) # gs))"
      using bl h g by (cases gs) simp_all
    with False e d len sp sep g show ?thesis
      by (intro exI [of _ "lw # (tw @ sep @ g) # gs"]) simp
  qed
qed

lemma re_split_from_pieces:
  "pos \<le> length s \<Longrightarrow>
   list_all (\<lambda>w. \<not> has_blank_line w) (re_split_from para_sep s pos) \<and>
   (\<exists>gaps. length gaps =
             Suc (length (map strip (filter (\<lambda>p. strip p \<noteq> []) (re_split_from para_sep s pos)))) \<and>
           drop pos s =
             weave gaps (map strip (filter (\<lambda>p. strip p \<noteq> []) (re_split_from para_sep s pos))) \<and>
           list_all (list_all is_space) gaps \<and> list_all has_blank_line (butlast (tl gaps)))"
proof (induction "length s - pos" arbitrary: pos rule: less_induct)
  case less
  show ?case
  proof (cases "find_from (sep_end s) pos (Suc (length s))")
    case None
    then have eq: "re_split_from para_sep s pos = [drop pos s]"
      by (subst re_split_from_para_sep) simp
    have "\<not> has_blank_line (slice s pos (length s))"
    proof (rule piece_no_blank_line)
      fix k assume "pos \<le> k" "k < length s"
      then show "sep_end s k = None" using find_from_None [OF None, of k] by simp
    qed simp
    then have "\<not> has_blank_line (drop pos s)" by (simp add: slice_def)
    with weave_base [of "drop pos s"] show ?thesis unfolding eq by simp
  next
    case (Some ij)
    obtain i j where ij: "ij = (i, j)" by (cases ij)
    with Some have f: "find_from (sep_end s) pos (Suc (length s)) = Some (i, j)" by simp
    then have pi: "pos \<le> i" and se: "sep_end s i = Some j" by (auto dest: find_from_Some)
    then have b: "i < length s" "Suc i < j" "j \<le> length s"
      using sep_end_Some [of s i j] by auto
    let ?rest = "re_split_from para_sep s j"
    have eq: "re_split_from para_sep s pos = slice s pos i # ?rest"
      using f pi b by (subst re_split_from_para_sep) simp
    have "length s - j < length s - pos" using pi b by simp
    from less.hyps [OF this b(3)] obtain gaps where
      nb: "list_all (\<lambda>w. \<not> has_blank_line w) ?rest" and
      g: "length gaps = Suc (length (map strip (filter (\<lambda>p. strip p \<noteq> []) ?rest)))"
         "drop j s = weave gaps (map strip (filter (\<lambda>p. strip p \<noteq> []) ?rest))"
         "list_all (list_all is_space) gaps" "list_all has_blank_line (butlast (tl gaps))"
      by blast
    have piece: "\<not> has_blank_line (slice s pos i)"
    proof (rule piece_no_blank_line)
      fix k assume "pos \<le> k" "k < i"
      then show "sep_end s k = None" by (rule find_from_first [OF f])
    qed (use b in simp)
    have sep: "list_all is_space (slice s i j)" "has_blank_line (slice s i j)"
      using sep_end_text [OF se] by simp_all
    have "drop pos s = slice s pos (length s)" by (simp add: slice_def)
    also have "\<dots> = slice s pos i @ slice s i (length s)"
      using pi b by (intro slice_append) auto
    also have "slice s i (length s) = slice s i j @ slice s j (length s)"
      using b by (intro slice_append) auto
    also have "slice s j (length s) = drop j s" by (simp add: slice_def)
    finally have t: "drop pos s = slice s pos i @ slice s i j @ drop j s" .
    have t': "drop pos s = slice s pos i @ slice s i j @
        weave gaps (map strip (filter (\<lambda>p. strip p \<noteq> []) ?rest))"
      unfolding t g(2) [symmetric] by (rule refl)
    have cons: "map strip (filter (\<lambda>p. strip p \<noteq> []) (slice s pos i # ?rest)) =
        map strip (filter (\<lambda>p. strip p \<noteq> []) [slice s pos i]) @
        map strip (filter (\<lambda>p. strip p \<noteq> []) ?rest)" by simp
    have "\<exists>gaps. length gaps =
             Suc (length (map strip (filter (\<lambda>p. strip p \<noteq> []) (re_split_from para_sep s pos)))) \<and>
           drop pos s =
             weave gaps (map strip (filter (\<lambda>p. strip p \<noteq> []) (re_split_from para_sep s pos))) \<and>
           list_all (list_all is_space) gaps \<and> list_all has_blank_line (butlast (tl gaps))"
      unfolding eq cons t' by (rule weave_step [OF g(1) g(3) g(4) sep])
    moreover have "list_all (\<lambda>w. \<not> has_blank_line w) (re_split_from para_sep s pos)"
      unfolding eq using piece nb by simp
    ultimately show ?thesis by blast
  qed
qed

lemma paragraphs_of_text:
  "list_all (\<lambda>p. p \<noteq> [] \<and> \<not> is_space (hd p) \<and> \<not> is_space (last p) \<and> \<not> has_blank_line p)
     (paragraphs_of m) \<and>
   (\<exists>gaps. length gaps = Suc (length (paragraphs_of m)) \<and> m = weave gaps (paragraphs_of m) \<and>
           list_all (list_all is_space) gaps \<and> list_all has_blank_line (butlast (tl gaps)))"
proof -
  have r: "list_all (\<lambda>w. \<not> has_blank_line w) (re_split_from para_sep m 0) \<and>
   (\<exists>gaps. length gaps =
             Suc (length (map strip (filter (\<lambda>p. strip p \<noteq> []) (re_split_from para_sep m 0)))) \<and>
           drop 0 m =
             weave gaps (map strip (filter (\<lambda>p. strip p \<noteq> []) (re_split_from para_sep m 0))) \<and>
           list_all (list_all is_space) gaps \<and> list_all has_blank_line (butlast (tl gaps)))"
    by (rule re_split_from_pieces) simp
  have "\<And>p. p \<in> set (paragraphs_of m) \<Longrightarrow> \<not> has_blank_line p"
  proof -
    fix p assume "p \<in> set (paragraphs_of m)"
    then obtain w where w: "w \<in> set (re_split_from para_sep m 0)" "p = strip w"
      by (auto simp: paragraphs_of_def re_split_def)
    from r w(1) have "\<not> has_blank_line w" by (simp add: list_all_iff)
    then show "\<not> has_blank_line p" unfolding w(2) by (rule strip_no_blank_line)
  qed
  then have "list_all (\<lambda>p. p \<noteq> [] \<and> \<not> is_space (hd p) \<and> \<not> is_space (last p) \<and> \<not> has_blank_line p)
     (paragraphs_of m)"
    using paragraphs_of_stripped [of _ m] by (simp add: list_all_iff)
  with r show ?thesis by (simp add: paragraphs_of_def re_split_def)
qed

section \<open>Properties of the response parser\<close>

lemmas regex_evals =
  block_at_def item_end_def marker_end_def line_end_def sep_end_def prefix_end_def
  find_from.simps scan.simps block_end.simps last_newline.simps
  is_space_def digit19_def dot_or_paren_def bullet_def not_newline_def

lemma example_reply_val:
  "example_reply =
     [49, 46, 32, 79, 112, 101, 110, 32, 116, 104, 101, 32, 102, 105, 108, 101, 10,
      50, 46, 32, 82, 101, 97, 100, 32, 108, 105, 110, 101, 32, 111, 110, 101, 10, 10,
      89, 111, 117, 39, 118, 101, 32, 103, 111, 116, 32, 116, 104, 105, 115, 32, 8212, 32,
      106, 117, 115, 116, 32, 111, 112, 101, 110, 32, 105, 116, 33]"
  by (simp add: example_reply_def py_def)

lemma example_reply_search: "re_search step_pattern example_reply = Some (0, 34)"
  unfolding example_reply_val re_search_step_pattern by (simp add: regex_evals)

lemma example_reply_paragraphs:
  "paragraphs_of example_reply =
     [py ''1. Open the file'' @ [10] @ py ''2. Read line one'',
      py ''You've got this '' @ [8212] @ py '' just open it!'']"
  unfolding example_reply_val paragraphs_of_def re_split_def
  by (simp add: re_split_from_para_sep regex_evals slice_def strip_def py_def)

lemma example_reply_block:
  "strip (slice example_reply 0 34) = py ''1. Open the file'' @ [10] @ py ''2. Read line one''"
  unfolding example_reply_val by (simp add: slice_def strip_def py_def is_space_def)

lemma example_reply_strip: "strip example_reply = example_reply"
  unfolding example_reply_val by (rule strip_id) (simp_all add: is_space_def)

lemma steps_with_block:
  assumes "re_search step_pattern m = Some (i, j)" and "1 < length (paragraphs_of m)"
  shows "steps (parse_response m) = strip (slice m i j)"
  using assms by (simp add: parse_response_def Let_def)

lemma encouragement_with_block:
  assumes "re_search step_pattern m = Some (i, j)" and "1 < length (paragraphs_of m)"
  shows "encouragement (parse_response m) =
           (if begins_with_list_item_prefix (last (paragraphs_of m))
            then py ''Focus on that first step, you can do it!''
            else last (paragraphs_of m))"
proof -
  let ?l = "last (paragraphs_of m)"
  from assms(2) have "paragraphs_of m \<noteq> []" by auto
  then have "?l \<in> set (paragraphs_of m)" by simp
  then have "?l \<noteq> []" and "\<not> is_space (hd ?l)" by (simp_all add: paragraphs_of_stripped)
  then have "prefix_end ?l \<noteq> None \<longleftrightarrow> begins_with_list_item_prefix ?l"
    by (rule prefix_end_spec)
  then have "re_match item_prefix ?l = None \<longleftrightarrow> \<not> begins_with_list_item_prefix ?l"
    unfolding re_match_item_prefix by auto
  with assms show ?thesis by (simp add: parse_response_def Let_def)
qed

text \<open>
  Claim C1. Whenever the step pattern finds a match in the text and the text has more than
  one non-empty paragraph, \<open>steps\<close> is the matched block trimmed of surrounding whitespace,
  and \<open>encouragement\<close> is the last paragraph unless that paragraph begins with a list-item
  prefix (a digit 1-9 followed by \<open>.\<close> or \<open>)\<close>, or one of \<open>*\<close>, \<open>-\<close>, \<open>+\<close>, then whitespace),
  in which case it is the fixed sentence "Focus on that first step, you can do it!". On the
  reply of the specification's example, a two-item list followed by a sentence with an em
  dash, \<open>get_ai_decomposition\<close> returns the list as steps and the sentence as encouragement.
\<close>

theorem step_block_and_last_paragraph:
  "(\<forall>m i j. re_search step_pattern m = Some (i, j) \<and> 1 < length (paragraphs_of m) \<longrightarrow>
      steps (parse_response m) = strip (slice m i j) \<and>
      encouragement (parse_response m) =
        (if begins_with_list_item_prefix (last (paragraphs_of m))
         then py ''Focus on that first step, you can do it!''
         else last (paragraphs_of m))) \<and>
   get_ai_decomposition False (Some ''sk'') (Some example_reply) =
     Some \<lparr>steps = py ''1. Open the file'' @ [10] @ py ''2. Read line one'',
           encouragement = py ''You've got this '' @ [8212] @ py '' just open it!''\<rparr>"
proof -
  have "\<not> begins_with_list_item_prefix (py ''You've got this '' @ [8212] @ py '' just open it!'')"
    by (simp add: begins_with_list_item_prefix_def py_def digit19_def bullet_def)
  then have "parse_response example_reply =
     \<lparr>steps = py ''1. Open the file'' @ [10] @ py ''2. Read line one'',
      encouragement = py ''You've got this '' @ [8212] @ py '' just open it!''\<rparr>"
    using steps_with_block [OF example_reply_search] encouragement_with_block [OF example_reply_search]
    by (simp add: example_reply_paragraphs example_reply_block)
  then show ?thesis
    using steps_with_block encouragement_with_block
    by (simp add: get_ai_decomposition_def example_reply_strip)
qed

theorem step_block_and_last_paragraph_witness:
  "re_search step_pattern example_reply = Some (0, 34) \<and>
   1 < length (paragraphs_of example_reply) \<and>
   steps (parse_response example_reply) = py ''1. Open the file'' @ [10] @ py ''2. Read line one'' \<and>
   encouragement (parse_response example_reply) =
     (if begins_with_list_item_prefix (last (paragraphs_of example_reply))
      then py ''Focus on that first step, you can do it!''
      else last (paragraphs_of example_reply))"
proof -
  have h: "re_search step_pattern example_reply = Some (0, 34) \<and>
           1 < length (paragraphs_of example_reply)"
    by (simp add: example_reply_search example_reply_paragraphs)
  with step_block_and_last_paragraph show ?thesis
    by (simp add: example_reply_block)
qed

text \<open>
  Claim C2. When the step pattern finds no match and the text has at least two non-empty
  paragraphs, \<open>steps\<close> is every paragraph but the last, joined with one blank line (two
  newlines) between neighbours, and \<open>encouragement\<close> is the last paragraph exactly. The
  paragraphs are trimmed: none is empty, begins or ends with whitespace, or contains a blank
  line. They are the paragraphs of the text: the text is the paragraphs in their order with
  whitespace before, between and after them, and the whitespace between two neighbours
  contains a blank line.
\<close>

theorem paragraphs_without_step_block:
  assumes "re_search step_pattern m = None" and "2 \<le> length (paragraphs_of m)"
  shows "steps (parse_response m) = join [10, 10] (butlast (paragraphs_of m)) \<and>
         encouragement (parse_response m) = last (paragraphs_of m) \<and>
         list_all (\<lambda>p. p \<noteq> [] \<and> \<not> is_space (hd p) \<and> \<not> is_space (last p) \<and> \<not> has_blank_line p)
           (paragraphs_of m) \<and>
         (\<exists>gaps. length gaps = Suc (length (paragraphs_of m)) \<and>
                 m = weave gaps (paragraphs_of m) \<and>
                 list_all (list_all is_space) gaps \<and>
                 list_all has_blank_line (butlast (tl gaps)))"
proof -
  from assms have "steps (parse_response m) = join [10, 10] (butlast (paragraphs_of m)) \<and>
         encouragement (parse_response m) = last (paragraphs_of m)"
    by (simp add: parse_response_def Let_def)
  with paragraphs_of_text [of m] show ?thesis by simp
qed

theorem paragraphs_without_step_block_witness:
  "re_search step_pattern prose_reply = None \<and>
   2 \<le> length (paragraphs_of prose_reply) \<and>
   paragraphs_of prose_reply = [py ''ab'', py ''cd'', py ''ef''] \<and>
   steps (parse_response prose_reply) = py ''ab'' @ [10, 10] @ py ''cd'' \<and>
   encouragement (parse_response prose_reply) = py ''ef'' \<and>
   (\<exists>gaps. length gaps = Suc (length (paragraphs_of prose_reply)) \<and>
           prose_reply = weave gaps (paragraphs_of prose_reply) \<and>
           list_all (list_all is_space) gaps \<and> list_all has_blank_line (butlast (tl gaps)))"
proof -
  have v: "prose_reply = [97, 98, 32, 10, 10, 32, 99, 100, 10, 32, 10, 101, 102]"
    by (simp add: prose_reply_def py_def)
  have s: "re_search step_pattern prose_reply = None"
    unfolding v re_search_step_pattern by (simp add: regex_evals)
  have p: "paragraphs_of prose_reply = [py ''ab'', py ''cd'', py ''ef'']"
    unfolding v paragraphs_of_def re_split_def
    by (simp add: re_split_from_para_sep regex_evals slice_def strip_def py_def)
  then have l: "2 \<le> length (paragraphs_of prose_reply)" by simp
  note t = paragraphs_without_step_block [OF s l]
  have st: "steps (parse_response prose_reply) = py ''ab'' @ [10, 10] @ py ''cd''"
    using t [THEN conjunct1] by (simp add: p)
  have en: "encouragement (parse_response prose_reply) = py ''ef''"
    using t [THEN conjunct2, THEN conjunct1] by (simp add: p)
  have tx: "\<exists>gaps. length gaps = Suc (length (paragraphs_of prose_reply)) \<and>
           prose_reply = weave gaps (paragraphs_of prose_reply) \<and>
           list_all (list_all is_space) gaps \<and> list_all has_blank_line (butlast (tl gaps))"
    by (rule t [THEN conjunct2, THEN conjunct2, THEN conjunct2])
  show ?thesis by (intro conjI s l p st en tx)
qed

text \<open>
  Claim C3, as stated, asks that no empty or whitespace-only line lies between two list-item
  lines of the matched step block. The whitespace of the pattern also matches newlines: on
  the reply \<open>1. a\<close>, empty line, \<open>2. b\<close> the match is the whole text, whose lines are an
  item, an empty line and an item.
\<close>

theorem step_block_spans_blank_line:
  "re_search step_pattern blank_gap_reply = Some (0, 10) \<and>
   split_lines (slice blank_gap_reply 0 10) = [py ''1. a'', [], py ''2. b''] \<and>
   re_match item_prefix (py ''1. a'') \<noteq> None \<and>
   re_match item_prefix (py ''2. b'') \<noteq> None"
proof -
  have v: "blank_gap_reply = [49, 46, 32, 97, 10, 10, 50, 46, 32, 98]"
    by (simp add: blank_gap_reply_def py_def)
  have "re_search step_pattern blank_gap_reply = Some (0, 10)"
    unfolding v re_search_step_pattern by (simp add: regex_evals)
  moreover have "split_lines (slice blank_gap_reply 0 10) = [py ''1. a'', [], py ''2. b'']"
    unfolding v by (simp add: slice_def py_def)
  moreover have "re_match item_prefix (py ''1. a'') \<noteq> None"
    unfolding re_match_item_prefix by (simp add: py_def regex_evals)
  moreover have "re_match item_prefix (py ''2. b'') \<noteq> None"
    unfolding re_match_item_prefix by (simp add: py_def regex_evals)
  ultimately show ?thesis by blast
qed

text \<open>
  Claim C3, amended. A step block starts at the first beginning of a line at which a list item
  begins, and is the longest run of list items from there: no item begins where the block
  ends. An item is optional whitespace, a list marker, at least one whitespace character,
  running on to the next character that is not whitespace, then the rest of that line and
  the newline that ends it; only an item that reaches the end of the text goes without the
  newline. The two whitespace runs may contain newlines, so empty and whitespace-only lines
  can lie inside the block, and only inside those runs.
\<close>

theorem step_block_is_run_of_items:
  assumes "re_search step_pattern m = Some (i, j)"
  shows "(i = 0 \<or> m ! (i - 1) = 10) \<and> i < j \<and> j \<le> length m \<and>
         (\<exists>ws. ws \<noteq> [] \<and> slice m i j = concat ws \<and>
               list_all (item_text False) (butlast ws) \<and>
               item_text (j = length m) (last ws)) \<and>
         \<not> item_begins (drop j m) \<and>
         (\<forall>k<i. (k = 0 \<or> m ! (k - 1) = 10) \<longrightarrow> \<not> item_begins (drop k m))"
proof -
  from assms have f: "find_from (block_at m) 0 (Suc (length m)) = Some (i, j)"
    by (simp only: re_search_step_pattern)
  from assms obtain e where b: "i = 0 \<or> m ! (i - 1) = 10"
    and e: "item_end m i = Some e" and j: "j = block_end m e"
    using re_search_step_pattern_Some by blast
  from e have ie: "i < e \<and> e \<le> length m" by (rule item_end_bounds)
  have ej: "e \<le> j" unfolding j by (rule block_end_ge)
  have jl: "j \<le> length m" unfolding j using ie by (intro block_end_le) simp
  have run: "\<exists>ws. ws \<noteq> [] \<and> slice m i j = concat ws \<and>
               list_all (item_text False) (butlast ws) \<and>
               item_text (j = length m) (last ws)"
    unfolding j using e by (rule block_end_items)
  have "item_end m j = None" unfolding j by (rule block_end_maximal)
  then have last: "\<not> item_begins (drop j m)" using item_begins_item_end by blast
  have first: "\<forall>k<i. (k = 0 \<or> m ! (k - 1) = 10) \<longrightarrow> \<not> item_begins (drop k m)"
  proof (intro allI impI)
    fix k assume k: "k < i" and l: "k = 0 \<or> m ! (k - 1) = 10"
    from f k have "block_at m k = None" by (intro find_from_first [of "block_at m" 0 _ i j]) auto
    with l have "item_end m k = None"
      by (auto simp: block_at_def split: if_splits option.splits)
    then show "\<not> item_begins (drop k m)" using item_begins_item_end by blast
  qed
  from b ie ej jl run last first show ?thesis by simp
qed

theorem step_block_is_run_of_items_witness:
  "re_search step_pattern intro_list_reply = Some (4, 15) \<and>
   intro_list_reply ! (4 - 1) = 10 \<and> 15 \<le> length intro_list_reply \<and>
   (\<exists>ws. ws \<noteq> [] \<and> slice intro_list_reply 4 15 = concat ws \<and>
         list_all (item_text False) (butlast ws) \<and>
         item_text (15 = length intro_list_reply) (last ws)) \<and>
   \<not> item_begins (drop 15 intro_list_reply) \<and>
   \<not> item_begins (drop 0 intro_list_reply)"
proof -
  have v: "intro_list_reply =
      [68, 111, 58, 10, 49, 46, 32, 97, 10, 10, 50, 46, 32, 98, 10, 101, 110, 100]"
    by (simp add: intro_list_reply_def py_def)
  have s: "re_search step_pattern intro_list_reply = Some (4, 15)"
    unfolding v re_search_step_pattern by (simp add: regex_evals)
  have n: "intro_list_reply ! (4 - 1) = 10" unfolding v by simp
  note t = step_block_is_run_of_items [OF s]
  have run: "\<exists>ws. ws \<noteq> [] \<and> slice intro_list_reply 4 15 = concat ws \<and>
         list_all (item_text False) (butlast ws) \<and>
         item_text (15 = length intro_list_reply) (last ws)"
    using t by blast
  have l: "15 \<le> length intro_list_reply" using t by blast
  have e: "\<not> item_begins (drop 15 intro_list_reply)" using t by blast
  have "\<forall>k<4. (k = 0 \<or> intro_list_reply ! (k - 1) = 10) \<longrightarrow>
      \<not> item_begins (drop k intro_list_reply)" using t by blast
  then have "0 < (4::nat) \<longrightarrow> (0 = (0::nat) \<or> intro_list_reply ! (0 - 1) = 10) \<longrightarrow>
      \<not> item_begins (drop 0 intro_list_reply)" by (rule spec)
  then have f: "\<not> item_begins (drop 0 intro_list_reply)" by simp
  show ?thesis by (intro conjI s n l run e f)
qed

lemma join_nonempty: "x \<noteq> [] \<Longrightarrow> join sep (x # xs) \<noteq> []"
  by (cases xs) simp_all

lemma py_nonempty: "cs \<noteq> [] \<Longrightarrow> py cs \<noteq> []"
  by (simp add: py_def)

lemma parse_response_encouragement: "encouragement (parse_response m) \<noteq> []"
proof -
  have l: "1 < length (paragraphs_of m) \<Longrightarrow> last (paragraphs_of m) \<noteq> []"
  proof -
    assume "1 < length (paragraphs_of m)"
    then have "paragraphs_of m \<noteq> []" by auto
    then have "last (paragraphs_of m) \<in> set (paragraphs_of m)" by simp
    then show ?thesis using paragraphs_of_stripped by blast
  qed
  have one: "length (paragraphs_of m) = 1 \<Longrightarrow> m \<noteq> []"
    using paragraphs_of_Nil by auto
  show ?thesis
    using l one by (auto simp: parse_response_def Let_def py_nonempty)
qed

lemma parse_response_steps: "steps (parse_response m) = [] \<longleftrightarrow> m = []"
proof (cases "paragraphs_of m")
  case Nil
  then show ?thesis by (simp add: parse_response_def Let_def)
next
  case (Cons p ps)
  then have m: "m \<noteq> []" using paragraphs_of_Nil by auto
  have p: "p \<noteq> []" using paragraphs_of_stripped [of p m] Cons by simp
  have j: "ps \<noteq> [] \<Longrightarrow> join [10, 10] (butlast (p # ps)) \<noteq> []"
    using p by (simp add: join_nonempty)
  have b: "\<And>i j. re_search step_pattern m = Some (i, j) \<Longrightarrow> strip (slice m i j) \<noteq> []"
    by (rule step_block_not_blank)
  show ?thesis
  proof (cases "re_search step_pattern m")
    case None
    with Cons m j show ?thesis
      by (cases ps) (simp_all add: parse_response_def Let_def py_nonempty)
  next
    case (Some ij)
    obtain i k where "ij = (i, k)" by (cases ij)
    with Some b have "strip (slice m i k) \<noteq> []" by simp
    with Some \<open>ij = (i, k)\<close> Cons m show ?thesis
      by (cases ps) (simp_all add: parse_response_def Let_def py_nonempty)
  qed
qed

text \<open>
  Claim C4, as stated, asks for non-empty \<open>steps\<close> on every reply. On the empty reply and on
  a whitespace-only reply the text handed to the parser is empty, there is no paragraph, and
  \<open>steps\<close> is that empty text.
\<close>

theorem empty_steps_on_blank_reply:
  "get_ai_decomposition False (Some ''sk'') (Some []) =
     Some \<lparr>steps = [], encouragement = py ''Remember to take it one step at a time.''\<rparr> \<and>
   get_ai_decomposition False (Some ''sk'') (Some [32, 10]) =
     Some \<lparr>steps = [], encouragement = py ''Remember to take it one step at a time.''\<rparr>"
  by (simp add: get_ai_decomposition_def strip_def is_space_def parse_response_def Let_def
      paragraphs_of_Nil)

text \<open>
  Claim C4, amended. In every result of \<open>get_ai_decomposition\<close> the encouragement is non-empty,
  and \<open>steps\<close> is empty exactly when the reply is empty or consists of whitespace only.
\<close>

theorem decomposition_fields_nonempty:
  assumes "get_ai_decomposition openai_config_missing api_key (Some content) = Some d"
  shows "encouragement d \<noteq> [] \<and> (steps d = [] \<longleftrightarrow> list_all is_space content)"
proof -
  from assms have "d = parse_response (strip content)"
    by (simp add: get_ai_decomposition_def split: if_splits)
  then show ?thesis
    by (simp add: parse_response_encouragement parse_response_steps strip_eq_Nil)
qed

theorem decomposition_fields_nonempty_witness:
  "get_ai_decomposition False (Some ''sk'') (Some (py ''hi'')) =
     Some (parse_response (strip (py ''hi''))) \<and>
   encouragement (parse_response (strip (py ''hi''))) \<noteq> [] \<and>
   steps (parse_response (strip (py ''hi''))) \<noteq> []"
proof -
  have g: "get_ai_decomposition False (Some ''sk'') (Some (py ''hi'')) =
     Some (parse_response (strip (py ''hi'')))"
    by (simp add: get_ai_decomposition_def)
  from decomposition_fields_nonempty [OF g] g show ?thesis
    by (simp add: py_def is_space_def)
qed

text \<open>
  Claim C5. When the text has no non-empty paragraph, \<open>steps\<close> is the text itself and
  \<open>encouragement\<close> is "Remember to take it one step at a time."; for the empty text the
  result is the empty \<open>steps\<close> with that sentence.
\<close>

theorem no_paragraphs_fallback:
  "(\<forall>m. paragraphs_of m = [] \<longrightarrow>
      parse_response m =
        \<lparr>steps = m, encouragement = py ''Remember to take it one step at a time.''\<rparr>) \<and>
   parse_response [] =
     \<lparr>steps = [], encouragement = py ''Remember to take it one step at a time.''\<rparr>"
  by (simp add: parse_response_def Let_def paragraphs_of_Nil)

theorem no_paragraphs_fallback_witness:
  "paragraphs_of [32, 10, 32] = [] \<and>
   parse_response [32, 10, 32] =
     \<lparr>steps = [32, 10, 32], encouragement = py ''Remember to take it one step at a time.''\<rparr>"
proof -
  have "paragraphs_of [32, 10, 32] = []"
    unfolding paragraphs_of_def re_split_def
    by (simp add: re_split_from_para_sep regex_evals slice_def strip_def)
  with no_paragraphs_fallback show ?thesis by simp
qed

text \<open>
  Claim C6. The parser works on the trimmed reply. When that text has exactly one non-empty
  paragraph: if the step pattern finds a match, \<open>steps\<close> is the whole text and
  \<open>encouragement\<close> is "Just taking the first step is progress!"; if it finds none, \<open>steps\<close>
  is "No specific steps identified." and \<open>encouragement\<close> is the paragraph.
\<close>

theorem single_paragraph_reply:
  assumes "paragraphs_of (strip content) = [p]"
  shows "(re_search step_pattern (strip content) \<noteq> None \<longrightarrow>
            parse_response (strip content) =
              \<lparr>steps = strip content,
               encouragement = py ''Just taking the first step is progress!''\<rparr>) \<and>
         (re_search step_pattern (strip content) = None \<longrightarrow>
            parse_response (strip content) =
              \<lparr>steps = py ''No specific steps identified.'', encouragement = p\<rparr>)"
proof -
  from assms have "length (paragraphs_of (strip content)) = 1" by simp
  with strip_strip have "paragraphs_of (strip content) = [strip content]"
    by (rule single_paragraph)
  with assms have "p = strip content" by simp
  with assms show ?thesis by (simp add: parse_response_def Let_def)
qed

theorem single_paragraph_reply_witness:
  "paragraphs_of (strip (py '' 1. a '')) = [py ''1. a''] \<and>
   re_search step_pattern (strip (py '' 1. a '')) \<noteq> None \<and>
   parse_response (strip (py '' 1. a '')) =
     \<lparr>steps = py ''1. a'', encouragement = py ''Just taking the first step is progress!''\<rparr> \<and>
   paragraphs_of (strip (py ''hello'')) = [py ''hello''] \<and>
   re_search step_pattern (strip (py ''hello'')) = None \<and>
   parse_response (strip (py ''hello'')) =
     \<lparr>steps = py ''No specific steps identified.'', encouragement = py ''hello''\<rparr>"
proof -
  have a: "strip (py '' 1. a '') = [49, 46, 32, 97]" by (simp add: strip_def py_def is_space_def)
  have b: "strip (py ''hello'') = [104, 101, 108, 108, 111]"
    by (simp add: strip_def py_def is_space_def)
  have pa: "paragraphs_of (strip (py '' 1. a '')) = [py ''1. a'']"
    unfolding a paragraphs_of_def re_split_def
    by (simp add: re_split_from_para_sep regex_evals slice_def strip_def py_def)
  have pb: "paragraphs_of (strip (py ''hello'')) = [py ''hello'']"
    unfolding b paragraphs_of_def re_split_def
    by (simp add: re_split_from_para_sep regex_evals slice_def strip_def py_def)
  have sa: "re_search step_pattern (strip (py '' 1. a '')) \<noteq> None"
    unfolding a re_search_step_pattern by (simp add: regex_evals)
  have sb: "re_search step_pattern (strip (py ''hello'')) = None"
    unfolding b re_search_step_pattern by (simp add: regex_evals)
  have sta: "strip (py '' 1. a '') = py ''1. a''" unfolding a by (simp add: py_def)
  from single_paragraph_reply [OF pa] single_paragraph_reply [OF pb] pa pb sa sb
  show ?thesis by (simp add: sta)
qed

section \<open>Properties of the credential store\<close>

lemmas store_defs =
  try_except_def io_bind_def io_return_def io_raise_def connect_def select_where_def
  insert_user_def update_where_def commit_def close_def hash_password_def
  verify_password_def Let_def

lemma fetchone_None: "fetchone (map f (filter P xs)) = None \<longleftrightarrow> \<not> list_ex P xs"
proof (cases "filter P xs")
  case Nil
  then have "\<not> list_ex P xs" by (simp add: filter_empty_conv list_ex_iff)
  with Nil show ?thesis by (simp add: fetchone_def)
next
  case (Cons r rest)
  then have "filter P xs \<noteq> []" by simp
  then have "list_ex P xs" by (simp add: filter_empty_conv list_ex_iff)
  with Cons show ?thesis by (simp add: fetchone_def)
qed

lemma fetchone_Some:
  "filter P xs = r # rest \<Longrightarrow> fetchone (map f (filter P xs)) = Some (f r)"
  by (simp add: fetchone_def)

lemma register_user_exists_only_if:
  assumes "fst (register_user env username email password d) =
             (False, ''Username or email already exists'')"
  shows "already_stored d username email"
proof (rule ccontr)
  assume "\<not> already_stored d username email"
  then have n: "fetchone (map select_star
      (filter (\<lambda>r. c_username r = username \<or> c_email r = email) (users d))) = None"
    by (simp add: already_stored_def fetchone_None)
  have "fst (register_user env username email password d) \<noteq>
          (False, ''Username or email already exists'')"
    by (simp add: register_user_def store_defs n split: option.splits)
  with assms show False by simp
qed

lemma register_user_exists_if:
  assumes "\<not> fails env 0" "\<not> fails env 1" "already_stored d username email"
  shows "register_user env username email password d =
           ((False, ''Username or email already exists''), d)"
proof -
  from assms(3) have "fetchone (map select_star
      (filter (\<lambda>r. c_username r = username \<or> c_email r = email) (users d))) \<noteq> None"
    by (simp add: already_stored_def fetchone_None)
  with assms(1,2) show ?thesis by (simp add: register_user_def store_defs)
qed

lemma register_user_success:
  assumes "\<not> fails env 0" "\<not> fails env 1" "\<not> fails env 2" "\<not> fails env 3"
      and "\<not> already_stored d username email"
      and "hashpw env password (gensalt env) = Some h"
  shows "register_user env username email password d =
           ((True, ''Registration successful''),
            d\<lparr>users := users d @
                 [\<lparr>c_id = fold max (map c_id (users d)) (id_sequence d) + 1,
                   c_username = username, c_email = email, c_password_hash = h,
                   c_openai_api_key = None, c_created_at = current_timestamp env,
                   c_last_login = None\<rparr>],
               id_sequence := fold max (map c_id (users d)) (id_sequence d) + 1\<rparr>)"
proof -
  from assms(5) have n: "fetchone (map select_star
      (filter (\<lambda>r. c_username r = username \<or> c_email r = email) (users d))) = None"
    by (simp add: already_stored_def fetchone_None)
  from assms(5) have u: "\<not> list_ex (\<lambda>r. c_username r = username \<or> c_email r = email) (users d)"
    by (simp add: already_stored_def)
  from assms(1-4,6) show ?thesis by (simp add: register_user_def store_defs n u)
qed

lemma register_user_True:
  assumes "fst (fst (register_user env username email password d))"
  shows "list_ex (\<lambda>r. c_username r = username)
           (users (snd (register_user env username email password d)))"
proof (cases "already_stored d username email")
  case True
  then have "fetchone (map select_star
      (filter (\<lambda>r. c_username r = username \<or> c_email r = email) (users d))) \<noteq> None"
    by (simp add: already_stored_def fetchone_None)
  then have "\<not> fst (fst (register_user env username email password d))"
    by (simp add: register_user_def store_defs)
  with assms show ?thesis by simp
next
  case False
  then have n: "fetchone (map select_star
      (filter (\<lambda>r. c_username r = username \<or> c_email r = email) (users d))) = None"
    by (simp add: already_stored_def fetchone_None)
  from False have u: "\<not> list_ex (\<lambda>r. c_username r = username \<or> c_email r = email) (users d)"
    by (simp add: already_stored_def)
  show ?thesis
  proof (cases "\<not> fails env 0 \<and> \<not> fails env 1 \<and> \<not> fails env 2 \<and> \<not> fails env 3 \<and>
                hashpw env password (gensalt env) \<noteq> None")
    case True
    then obtain h where "hashpw env password (gensalt env) = Some h" by auto
    with True False show ?thesis by (simp add: register_user_success)
  next
    case False
    then have "\<not> fst (fst (register_user env username email password d))"
      by (cases "hashpw env password (gensalt env)")
         (auto simp: register_user_def store_defs n u)
    with assms show ?thesis by simp
  qed
qed

lemma register_user_again:
  assumes "list_ex (\<lambda>r. c_username r = username) (users d)"
  shows "\<not> fst (fst (register_user env username email password d))"
proof -
  from assms have "list_ex (\<lambda>r. c_username r = username \<or> c_email r = email) (users d)"
    by (auto simp: list_ex_iff)
  then have "fetchone (map select_star
      (filter (\<lambda>r. c_username r = username \<or> c_email r = email) (users d))) \<noteq> None"
    by (simp add: fetchone_None)
  then show ?thesis by (simp add: register_user_def store_defs)
qed

text \<open>
  Claim C8. \<open>register_user\<close> returns "Username or email already exists" only when a row with the
  same username or the same email is stored, and does return it, leaving the store as it
  was, whenever such a row is stored and the connection and the query do not fail. When no
  such row is stored, no storage call fails and \<open>bcrypt\<close> returns a hash, it reports success
  and the table gains one row: the given username and email, and as password hash the
  result of \<open>bcrypt.hashpw\<close> on the password and a fresh salt. After a successful
  registration, any further registration of the same username returns a failure.
\<close>

theorem register_user_already_exists_iff:
  "(fst (register_user env username email password d) =
      (False, ''Username or email already exists'') \<longrightarrow> already_stored d username email) \<and>
   (\<not> fails env 0 \<and> \<not> fails env 1 \<and> already_stored d username email \<longrightarrow>
      register_user env username email password d =
        ((False, ''Username or email already exists''), d)) \<and>
   (\<not> fails env 0 \<and> \<not> fails env 1 \<and> \<not> fails env 2 \<and> \<not> fails env 3 \<and>
    \<not> already_stored d username email \<and> hashpw env password (gensalt env) = Some h \<longrightarrow>
      register_user env username email password d =
        ((True, ''Registration successful''),
         d\<lparr>users := users d @
              [\<lparr>c_id = fold max (map c_id (users d)) (id_sequence d) + 1,
                c_username = username, c_email = email, c_password_hash = h,
                c_openai_api_key = None, c_created_at = current_timestamp env,
                c_last_login = None\<rparr>],
            id_sequence := fold max (map c_id (users d)) (id_sequence d) + 1\<rparr>)) \<and>
   (fst (fst (register_user env username email password d)) \<longrightarrow>
      \<not> fst (fst (register_user env' username email' password'
                   (snd (register_user env username email password d)))))"
proof (intro conjI impI)
  assume "fst (register_user env username email password d) =
            (False, ''Username or email already exists'')"
  then show "already_stored d username email" by (rule register_user_exists_only_if)
next
  assume "\<not> fails env 0 \<and> \<not> fails env 1 \<and> already_stored d username email"
  then show "register_user env username email password d =
        ((False, ''Username or email already exists''), d)"
    by (simp add: register_user_exists_if)
next
  assume "\<not> fails env 0 \<and> \<not> fails env 1 \<and> \<not> fails env 2 \<and> \<not> fails env 3 \<and>
    \<not> already_stored d username email \<and> hashpw env password (gensalt env) = Some h"
  then show "register_user env username email password d =
        ((True, ''Registration successful''),
         d\<lparr>users := users d @
              [\<lparr>c_id = fold max (map c_id (users d)) (id_sequence d) + 1,
                c_username = username, c_email = email, c_password_hash = h,
                c_openai_api_key = None, c_created_at = current_timestamp env,
                c_last_login = None\<rparr>],
            id_sequence := fold max (map c_id (users d)) (id_sequence d) + 1\<rparr>)"
    by (intro register_user_success) simp_all
next
  assume "fst (fst (register_user env username email password d))"
  then have "list_ex (\<lambda>r. c_username r = username)
           (users (snd (register_user env username email password d)))"
    by (rule register_user_True)
  then show "\<not> fst (fst (register_user env' username email' password'
                   (snd (register_user env username email password d))))"
    by (rule register_user_again)
qed

theorem register_user_already_exists_iff_witness:
  "\<not> already_stored empty_db ''alice'' ''alice@example.org'' \<and>
   register_user (toy_env (\<lambda>n. False)) ''alice'' ''alice@example.org'' ''pw'' empty_db =
     ((True, ''Registration successful''),
      \<lparr>users = [alice\<lparr>c_openai_api_key := None\<rparr>], id_sequence = 1, open_connections = 0\<rparr>) \<and>
   already_stored alice_db ''alice'' ''other@example.org'' \<and>
   register_user (toy_env (\<lambda>n. False)) ''alice'' ''other@example.org'' ''pw2'' alice_db =
     ((False, ''Username or email already exists''), alice_db) \<and>
   \<not> fst (fst (register_user (toy_env (\<lambda>n. n = 0)) ''alice'' ''other@example.org'' ''pw2''
     (snd (register_user (toy_env (\<lambda>n. False)) ''alice'' ''alice@example.org'' ''pw'' empty_db))))"
proof -
  let ?e = "toy_env (\<lambda>n. False)"
  have a: "\<not> fails ?e 0 \<and> \<not> fails ?e 1 \<and> \<not> fails ?e 2 \<and> \<not> fails ?e 3 \<and>
    \<not> already_stored empty_db ''alice'' ''alice@example.org'' \<and>
    hashpw ?e ''pw'' (gensalt ?e) = Some ''salt$pw''"
    by (simp add: toy_env_def empty_db_def already_stored_def)
  have b: "\<not> fails ?e 0 \<and> \<not> fails ?e 1 \<and> already_stored alice_db ''alice'' ''other@example.org''"
    by (simp add: toy_env_def alice_db_def alice_def already_stored_def)
  note t1 = register_user_already_exists_iff
    [of ?e "''alice''" "''alice@example.org''" "''pw''" empty_db "''salt$pw''"
        "toy_env (\<lambda>n. n = 0)" "''other@example.org''" "''pw2''"]
  note t2 = register_user_already_exists_iff
    [of ?e "''alice''" "''other@example.org''" "''pw2''" alice_db]
  have r1: "register_user ?e ''alice'' ''alice@example.org'' ''pw'' empty_db =
     ((True, ''Registration successful''),
      \<lparr>users = [alice\<lparr>c_openai_api_key := None\<rparr>], id_sequence = 1, open_connections = 0\<rparr>)"
    unfolding t1 [THEN conjunct2, THEN conjunct2, THEN conjunct1, THEN mp, OF a]
    by (simp add: empty_db_def alice_def toy_env_def)
  then have "fst (fst (register_user ?e ''alice'' ''alice@example.org'' ''pw'' empty_db))"
    by simp
  then have r3: "\<not> fst (fst (register_user (toy_env (\<lambda>n. n = 0)) ''alice''
      ''other@example.org'' ''pw2''
      (snd (register_user ?e ''alice'' ''alice@example.org'' ''pw'' empty_db))))"
    by (rule t1 [THEN conjunct2, THEN conjunct2, THEN conjunct2, THEN mp])
  have r2: "register_user ?e ''alice'' ''other@example.org'' ''pw2'' alice_db =
     ((False, ''Username or email already exists''), alice_db)"
    by (rule t2 [THEN conjunct2, THEN conjunct1, THEN mp, OF b])
  from a have a': "\<not> already_stored empty_db ''alice'' ''alice@example.org''" by simp
  from b have b': "already_stored alice_db ''alice'' ''other@example.org''" by simp
  show ?thesis by (intro conjI a' b' r1 r2 r3)
qed

lemma login_user_absent:
  assumes "\<not> list_ex (\<lambda>r. c_username r = username) (users d)"
  shows "login_user env username password d =
           (if fails env 0 then ((False, Message ''Login failed''), d)
            else if fails env 1
            then ((False, Message ''Login failed''),
                  d\<lparr>open_connections := Suc (open_connections d)\<rparr>)
            else ((False, Message ''Invalid username or password''), d))"
proof -
  from assms have "fetchone (map select_star
      (filter (\<lambda>r. c_username r = username) (users d))) = None"
    by (simp add: fetchone_None)
  then show ?thesis by (simp add: login_user_def store_defs)
qed

lemma login_user_wrong_password:
  assumes "filter (\<lambda>r. c_username r = username) (users d) = r # rest"
      and "checkpw env password (PyBytes (c_password_hash r)) = Some False"
  shows "login_user env username password d =
           (if fails env 0 then ((False, Message ''Login failed''), d)
            else if fails env 1
            then ((False, Message ''Login failed''),
                  d\<lparr>open_connections := Suc (open_connections d)\<rparr>)
            else ((False, Message ''Invalid username or password''), d))"
proof -
  from assms(1) have "fetchone (map select_star
      (filter (\<lambda>r. c_username r = username) (users d))) = Some (select_star r)"
    by (rule fetchone_Some)
  moreover have "select_star r ! 3 = PyBytes (c_password_hash r)"
    by (simp add: select_star_def)
  ultimately show ?thesis using assms(2) by (simp add: login_user_def store_defs)
qed

text \<open>
  When the username is stored and the password check returns false, \<open>login_user\<close> returns
  exactly what it returns for a username that is not stored, whichever storage calls fail.
\<close>

lemma login_user_same_failure:
  assumes "filter (\<lambda>r. c_username r = username) (users d) = r # rest"
      and "checkpw env password (PyBytes (c_password_hash r)) = Some False"
      and "\<not> list_ex (\<lambda>r. c_username r = unknown) (users d)"
  shows "login_user env username password d = login_user env unknown password' d \<and>
         \<not> fst (fst (login_user env username password d)) \<and>
         (\<not> fails env 0 \<and> \<not> fails env 1 \<longrightarrow>
            fst (login_user env username password d) =
              (False, Message ''Invalid username or password''))"
  by (simp add: login_user_wrong_password [OF assms(1,2)] login_user_absent [OF assms(3)])

text \<open>
  Claim C7 asks that a wrong password for a stored username be answered like an unknown
  username. When the password check raises instead of returning false, the stored username
  is answered "Login failed" by the \<open>except\<close> branch, while for the unknown username the check
  is not run and the answer is "Invalid username or password": the same wrong password, of
  73 bytes, tells the two apart.
\<close>

theorem login_user_reveals_stored_username:
  "login_user (toy_env (\<lambda>n. False)) ''alice'' (replicate 73 CHR ''x'') alice_db =
     ((False, Message ''Login failed''), alice_db\<lparr>open_connections := 1\<rparr>) \<and>
   login_user (toy_env (\<lambda>n. False)) ''bob'' (replicate 73 CHR ''x'') alice_db =
     ((False, Message ''Invalid username or password''), alice_db) \<and>
   c_username alice = ''alice'' \<and> c_password_hash alice = ''salt$pw''"
  by (simp add: login_user_def store_defs fetchone_def select_star_def toy_env_def alice_db_def
      alice_def)

text \<open>
  Claim C9 asks that every operation closes its connection on every exit path. When a
  statement raises after \<open>connect\<close> has succeeded (a storage call, or \<open>bcrypt\<close> on a
  password it refuses), the \<open>except\<close> branch returns without \<open>conn.close()\<close>: in each of the
  five operations one connection is still open on return.
\<close>

theorem connection_left_open_on_error:
  "register_user (toy_env (\<lambda>n. n = 2)) ''alice'' ''alice@example.org'' ''pw'' empty_db =
     ((False, ''Registration failed''), empty_db\<lparr>open_connections := 1\<rparr>) \<and>
   register_user (toy_env (\<lambda>n. False)) ''alice'' ''alice@example.org'' (replicate 73 CHR ''x'')
       empty_db =
     ((False, ''Registration failed''), empty_db\<lparr>open_connections := 1\<rparr>) \<and>
   login_user (toy_env (\<lambda>n. n = 1)) ''alice'' ''pw'' alice_db =
     ((False, Message ''Login failed''), alice_db\<lparr>open_connections := 1\<rparr>) \<and>
   get_user_by_id (toy_env (\<lambda>n. n = 1)) 1 alice_db =
     (None, alice_db\<lparr>open_connections := 1\<rparr>) \<and>
   update_openai_api_key (toy_env (\<lambda>n. n = 2)) ''alice'' ''sk-new'' alice_db =
     ((False, ''Failed to update API key''), alice_db\<lparr>open_connections := 1\<rparr>) \<and>
   get_openai_api_key (toy_env (\<lambda>n. n = 1)) ''alice'' alice_db =
     (PyNone, alice_db\<lparr>open_connections := 1\<rparr>)"
  by (simp add: register_user_def login_user_def get_user_by_id_def update_openai_api_key_def
      get_openai_api_key_def store_defs fetchone_def toy_env_def empty_db_def alice_db_def)

text \<open>
  Claim C10 asks that the stored API key never reaches the caller. \<open>SELECT *\<close> returns the
  columns in table order, so index 4 is \<open>openai_api_key\<close> and index 5 is \<open>created_at\<close>:
  \<open>login_user\<close> and \<open>get_user_by_id\<close> return the API key under \<open>created_at\<close> and the creation
  time under \<open>last_login\<close>.
\<close>

theorem api_key_returned_as_created_at:
  "fst (login_user (toy_env (\<lambda>n. False)) ''alice'' ''pw'' alice_db) =
     (True, UserInfo [(''id'', PyInt 1), (''username'', PyStr ''alice''),
                      (''email'', PyStr ''alice@example.org''),
                      (''created_at'', PyStr ''sk-secret''),
                      (''last_login'', PyStr ''2024-05-01 10:00:00'')]) \<and>
   fst (get_user_by_id (toy_env (\<lambda>n. False)) 1 alice_db) =
     Some [(''id'', PyInt 1), (''username'', PyStr ''alice''),
           (''email'', PyStr ''alice@example.org''),
           (''created_at'', PyStr ''sk-secret''),
           (''last_login'', PyStr ''2024-05-01 10:00:00'')] \<and>
   c_openai_api_key alice = Some ''sk-secret'' \<and>
   c_created_at alice = ''2024-05-01 10:00:00''"
  by (simp add: login_user_def get_user_by_id_def store_defs fetchone_def select_star_def
      nullable_def toy_env_def alice_db_def alice_def)

end
